theory Spec2Isabelle
  imports Main "HOL-Library.Word" "HOL-Library.AList"
begin

section \<open>Strings and bytes\<close>

text \<open>
  A Python \<open>str\<close> is a sequence of Unicode code points, a \<open>bytes\<close> value a sequence of
  octets. Code points are natural numbers here, so that every file name the operating system
  can hand to the script and the check mark (U+2713) of the summary line are values of the
  model; \<open>lit\<close> turns an ASCII literal of the source into its code points.
\<close>

type_synonym str = "nat list"
type_synonym bytes = "8 word list"

definition lit :: "string \<Rightarrow> str" where
  "lit s = map of_char s"

text \<open>
  \<open>str.lower()\<close>. The ASCII letters are lowered; the two code points above 127 whose
  lowercase form contains an ASCII letter (U+0130 and the Kelvin sign U+212A) are lowered as
  Python does. Every other code point above 127 is lowered by Python to code points above 127
  and is left unchanged here: the script only compares lowered text with ASCII extension
  strings, and such a comparison cannot tell the two apart.
\<close>

definition lower_cp :: "nat \<Rightarrow> str" where
  "lower_cp c =
     (if 65 \<le> c \<and> c \<le> 90 then [c + 32]
      else if c = 304 then [105, 775]
      else if c = 8490 then [107]
      else [c])"

definition lower :: "str \<Rightarrow> str" where
  "lower s = concat (map lower_cp s)"

text \<open>\<open>s.rfind(c)\<close> for a single character: the last index of \<open>c\<close>, or \<open>-1\<close>.\<close>

fun rfind :: "nat \<Rightarrow> str \<Rightarrow> int" where
  "rfind c [] = - 1"
| "rfind c (x # xs) =
     (let r = rfind c xs
      in if 0 \<le> r then r + 1 else if x = c then 0 else - 1)"

text \<open>\<open>s.split(c)\<close> for a single character separator.\<close>

fun split_on :: "nat \<Rightarrow> str \<Rightarrow> str list" where
  "split_on c [] = [[]]"
| "split_on c (x # xs) =
     (if x = c then [] # split_on c xs
      else (case split_on c xs of
              [] \<Rightarrow> [[x]]
            | y # ys \<Rightarrow> (x # y) # ys))"

text \<open>\<open>sep.join(xs)\<close>.\<close>

fun join :: "str \<Rightarrow> str list \<Rightarrow> str" where
  "join sep [] = []"
| "join sep [x] = x"
| "join sep (x # y # ys) = x @ sep @ join sep (y # ys)"

text \<open>\<open>str(n)\<close> for a non-negative integer: its decimal digits.\<close>

fun str_of_nat :: "nat \<Rightarrow> str" where
  "str_of_nat n = (if n < 10 then [48 + n] else str_of_nat (n div 10) @ [48 + n mod 10])"

declare str_of_nat.simps [simp del]


section \<open>Base64 (\<open>base64.b64encode\<close>)\<close>

text \<open>
  The standard alphabet of RFC 4648: index 0 to 25 are \<open>A\<close> to \<open>Z\<close>, 26 to 51 are \<open>a\<close>
  to \<open>z\<close>, 52 to 61 are the digits, 62 is \<open>+\<close> and 63 is \<open>/\<close>. Only the low six bits of
  the argument are used.
\<close>

definition b64_char :: "nat \<Rightarrow> nat" where
  "b64_char i =
     (let k = i mod 64
      in if k < 26 then 65 + k
         else if k < 52 then 97 + (k - 26)
         else if k < 62 then 48 + (k - 52)
         else if k = 62 then 43 else 47)"

text \<open>Three octets as one 24-bit number, most significant octet first.\<close>

definition bytes_to_nat :: "8 word \<Rightarrow> 8 word \<Rightarrow> 8 word \<Rightarrow> nat" where
  "bytes_to_nat a b c = unat a * 65536 + unat b * 256 + unat c"

text \<open>
  Each group of three octets gives four characters; a last group of one or two octets is
  filled with zero bits and padded with \<open>=\<close> (code point 61) to four characters.
\<close>

fun b64encode :: "bytes \<Rightarrow> str" where
  "b64encode [] = []"
| "b64encode [a] =
     (let n = bytes_to_nat a 0 0
      in [b64_char (n div 262144), b64_char (n div 4096), 61, 61])"
| "b64encode [a, b] =
     (let n = bytes_to_nat a b 0
      in [b64_char (n div 262144), b64_char (n div 4096), b64_char (n div 64), 61])"
| "b64encode (a # b # c # rest) =
     (let n = bytes_to_nat a b c
      in [b64_char (n div 262144), b64_char (n div 4096), b64_char (n div 64), b64_char n]
         @ b64encode rest)"

text \<open>
  The decoder the round-trip law is stated against: the strict decoder of RFC 4648
  (\<open>base64.b64decode(s, validate=True)\<close>). It is not part of the script.
\<close>

definition b64_index :: "nat \<Rightarrow> nat option" where
  "b64_index c =
     (if 65 \<le> c \<and> c \<le> 90 then Some (c - 65)
      else if 97 \<le> c \<and> c \<le> 122 then Some (c - 97 + 26)
      else if 48 \<le> c \<and> c \<le> 57 then Some (c - 48 + 52)
      else if c = 43 then Some 62
      else if c = 47 then Some 63
      else None)"

definition sextets_to_nat :: "nat \<Rightarrow> nat \<Rightarrow> nat \<Rightarrow> nat \<Rightarrow> nat" where
  "sextets_to_nat s1 s2 s3 s4 = ((s1 * 64 + s2) * 64 + s3) * 64 + s4"

fun b64decode :: "str \<Rightarrow> bytes option" where
  "b64decode [] = Some []"
| "b64decode (c1 # c2 # c3 # c4 # rest) =
     (if rest = [] \<and> c3 = 61 \<and> c4 = 61 then
        Option.bind (b64_index c1) (\<lambda>s1.
        Option.bind (b64_index c2) (\<lambda>s2.
          let m = sextets_to_nat s1 s2 0 0
          in Some [of_nat (m div 65536)]))
      else if rest = [] \<and> c4 = 61 then
        Option.bind (b64_index c1) (\<lambda>s1.
        Option.bind (b64_index c2) (\<lambda>s2.
        Option.bind (b64_index c3) (\<lambda>s3.
          let m = sextets_to_nat s1 s2 s3 0
          in Some [of_nat (m div 65536), of_nat (m div 256 mod 256)])))
      else
        Option.bind (b64_index c1) (\<lambda>s1.
        Option.bind (b64_index c2) (\<lambda>s2.
        Option.bind (b64_index c3) (\<lambda>s3.
        Option.bind (b64_index c4) (\<lambda>s4.
        Option.bind (b64decode rest) (\<lambda>bs.
          let m = sextets_to_nat s1 s2 s3 s4
          in Some (of_nat (m div 65536) # of_nat (m div 256 mod 256)
                   # of_nat (m mod 256) # bs)))))))"
| "b64decode _ = None"


section \<open>Paths (\<open>os.path\<close> and \<open>pathlib\<close>, POSIX flavour)\<close>

text \<open>
  \<open>os.path.splitext\<close>: the extension starts at the last dot of the last path component;
  leading dots of that component do not start an extension. The scan is the \<open>while\<close> loop
  of \<open>genericpath._splitext\<close>: it looks for a character other than a dot between the start
  of the file name and the last dot.
\<close>

function splitext_scan :: "str \<Rightarrow> nat \<Rightarrow> nat \<Rightarrow> bool" where
  "splitext_scan p filenameIndex dotIndex =
     (if filenameIndex < dotIndex then
        (if take 1 (drop filenameIndex p) \<noteq> [46] then True
         else splitext_scan p (filenameIndex + 1) dotIndex)
      else False)"
  by pat_completeness auto
termination
  by (relation "measure (\<lambda>(p, filenameIndex, dotIndex). dotIndex - filenameIndex)") auto

declare splitext_scan.simps [simp del]

definition splitext :: "str \<Rightarrow> str \<times> str" where
  "splitext p =
     (let sepIndex = rfind 47 p;
          dotIndex = rfind 46 p
      in if sepIndex < dotIndex \<and> splitext_scan p (nat (sepIndex + 1)) (nat dotIndex)
         then (take (nat dotIndex) p, drop (nat dotIndex) p)
         else (p, []))"

text \<open>
  A \<open>pathlib\<close> path: its root (empty, \<open>/\<close> or \<open>//\<close>) and its parts. \<open>Path\<close> is the
  constructor applied to one string: empty components and \<open>.\<close> components are dropped,
  and exactly two leading slashes are kept apart from one (\<open>posixpath.splitroot\<close>).
\<close>

record path =
  root :: str
  parts :: "str list"

definition path_components :: "str \<Rightarrow> str list" where
  "path_components s = filter (\<lambda>c. c \<noteq> [] \<and> c \<noteq> [46]) (split_on 47 s)"

definition Path :: "str \<Rightarrow> path" where
  "Path s =
     \<lparr> root = (if take 1 s \<noteq> [47] then []
               else if take 1 (drop 1 s) \<noteq> [47] then [47]
               else if take 1 (drop 2 s) = [47] then [47]
               else [47, 47]),
       parts = path_components s \<rparr>"

text \<open>\<open>str(p)\<close>, which is also \<open>os.fspath(p)\<close>.\<close>

definition fspath :: "path \<Rightarrow> str" where
  "fspath p =
     (let s = root p @ join [47] (parts p)
      in if s = [] then [46] else s)"

text \<open>\<open>p.name\<close> and \<open>p.suffix\<close> (the definition of Python 3.4 to 3.13).\<close>

definition path_name :: "path \<Rightarrow> str" where
  "path_name p = (if parts p = [] then [] else last (parts p))"

definition suffix_of_name :: "str \<Rightarrow> str" where
  "suffix_of_name name =
     (let i = rfind 46 name
      in if 0 < i \<and> i < int (length name) - 1 then drop (nat i) name else [])"

definition path_suffix :: "path \<Rightarrow> str" where
  "path_suffix p = suffix_of_name (path_name p)"

text \<open>
  \<open>p / s\<close> for a relative string \<open>s\<close>, and the child path that \<open>iterdir\<close> builds from a
  directory entry's name (which is taken as one part, unparsed).
\<close>

definition joinpath :: "path \<Rightarrow> str \<Rightarrow> path" where
  "joinpath p s = (if root (Path s) \<noteq> [] then Path s else p\<lparr>parts := parts p @ parts (Path s)\<rparr>)"

definition make_child :: "path \<Rightarrow> str \<Rightarrow> path" where
  "make_child p name = p\<lparr>parts := parts p @ [name]\<rparr>"

section \<open>The file system, the console and the exceptions\<close>

text \<open>
  A directory is the list of its entries in the order in which the platform lists them; a
  regular file is its content. The root of the tree stands for both \<open>/\<close> and the current
  directory. Symbolic links and permissions are not modelled.
\<close>

datatype node = File bytes | Dir "(str \<times> node) list"

datatype errno = ENOENT | ENOTDIR | EISDIR | ENAMETOOLONG

text \<open>
  The exceptions of the script: the subclasses of \<open>OSError\<close> that Python raises for a
  missing entry, for a regular file where a directory is needed and for a directory where a
  regular file is needed; a plain \<open>OSError\<close> for an error number that has no subclass;
  \<open>ValueError\<close> for a path with a null character; and \<open>UnicodeEncodeError\<close> (itself a
  \<open>ValueError\<close>) for text that an encoding cannot encode.
\<close>

datatype error =
    FileNotFoundError str
  | NotADirectoryError str
  | IsADirectoryError str
  | OSError errno str
  | ValueError str
  | UnicodeEncodeError str

fun os_error :: "errno \<Rightarrow> str \<Rightarrow> error" where
  "os_error ENOENT p = FileNotFoundError p"
| "os_error ENOTDIR p = NotADirectoryError p"
| "os_error EISDIR p = IsADirectoryError p"
| "os_error ENAMETOOLONG p = OSError ENAMETOOLONG p"

text \<open>
  What makes a system call fail on a path: an error number of the kernel, or the path
  cannot be handed to the kernel at all.
\<close>

datatype fault = Errno errno | NullByte | NotEncodable

fun raise_fault :: "fault \<Rightarrow> str \<Rightarrow> error" where
  "raise_fault (Errno e) p = os_error e p"
| "raise_fault NullByte p = ValueError p"
| "raise_fault NotEncodable p = UnicodeEncodeError p"

text \<open>
  \<open>os.fsencode\<close>: a path goes to the kernel as UTF-8, a code point from U+DC80 to U+DCFF
  standing for the single octet it escapes (\<open>surrogateescape\<close>); no other surrogate can
  be encoded. The limits are those of Linux: a component has at most \<open>NAME_MAX\<close> octets,
  and a path, with the null that ends it, at most \<open>PATH_MAX\<close>.
\<close>

definition utf8_len :: "nat \<Rightarrow> nat" where
  "utf8_len c =
     (if c < 128 then 1
      else if c < 2048 then 2
      else if 56448 \<le> c \<and> c \<le> 56575 then 1
      else if c < 65536 then 3
      else 4)"

definition fsencode_len :: "str \<Rightarrow> nat" where
  "fsencode_len p = sum_list (map utf8_len p)"

definition fsencodable :: "str \<Rightarrow> bool" where
  "fsencodable p = list_all (\<lambda>c. c < 55296 \<or> 57343 < c \<or> (56448 \<le> c \<and> c \<le> 56575)) p"

definition NAME_MAX :: nat where
  "NAME_MAX = 255"

definition PATH_MAX :: nat where
  "PATH_MAX = 4096"

text \<open>The entry at a path without \<open>.\<close> and \<open>..\<close>, each component being an entry's name.\<close>

fun fs_lookup :: "node \<Rightarrow> str list \<Rightarrow> errno + node" where
  "fs_lookup n [] = Inr n"
| "fs_lookup (File b) (c # cs) = Inl ENOTDIR"
| "fs_lookup (Dir es) (c # cs) =
     (case map_of es c of
        None \<Rightarrow> Inl ENOENT
      | Some n \<Rightarrow> fs_lookup n cs)"

text \<open>
  The walk of the kernel along the components of a path, from the directory at \<open>cur\<close>
  in the tree.
  Every component is looked up in a directory, so what has been reached must be one;
  \<open>.\<close> stays there, \<open>..\<close> goes to the parent (the root is its own parent), and a name
  goes to the entry of that name, whether it exists or not: a missing entry shows at the
  next component, or when the walk has ended and the entry is used.
\<close>

fun walk :: "node \<Rightarrow> str list \<Rightarrow> str list \<Rightarrow> errno + str list" where
  "walk tree cur [] = Inr cur"
| "walk tree cur (c # cs) =
     (case fs_lookup tree cur of
        Inl e \<Rightarrow> Inl e
      | Inr (File b) \<Rightarrow> Inl ENOTDIR
      | Inr (Dir es) \<Rightarrow>
          if c = [46] then walk tree cur cs
          else if c = [46, 46] then walk tree (butlast cur) cs
          else if NAME_MAX < fsencode_len c then Inl ENAMETOOLONG
          else walk tree (cur @ [c]) cs)"

text \<open>
  The components the kernel sees in a path string: what stands between the slashes, empty
  pieces left out. \<open>resolve\<close> is the path a string leads to.
\<close>

definition kernel_components :: "str \<Rightarrow> str list" where
  "kernel_components p = filter (\<lambda>c. c \<noteq> []) (split_on 47 p)"

definition resolve :: "node \<Rightarrow> str \<Rightarrow> fault + str list" where
  "resolve tree p =
     (if \<not> fsencodable p then Inl NotEncodable
      else if 0 \<in> set p then Inl NullByte
      else if p = [] then Inl (Errno ENOENT)
      else if PATH_MAX \<le> fsencode_len p then Inl (Errno ENAMETOOLONG)
      else (case walk tree [] (kernel_components p) of
              Inl e \<Rightarrow> Inl (Errno e)
            | Inr cur \<Rightarrow> Inr cur))"

text \<open>
  \<open>os.stat(p)\<close>, as far as the script needs it: the entry the path names. A path that
  ends in a slash names a directory or nothing.
\<close>

definition fs_stat :: "node \<Rightarrow> str \<Rightarrow> fault + node" where
  "fs_stat tree p =
     (case resolve tree p of
        Inl f \<Rightarrow> Inl f
      | Inr cur \<Rightarrow>
          (case fs_lookup tree cur of
             Inl e \<Rightarrow> Inl (Errno e)
           | Inr (Dir es) \<Rightarrow> Inr (Dir es)
           | Inr (File b) \<Rightarrow> if last p = 47 then Inl (Errno ENOTDIR) else Inr (File b)))"

text \<open>
  Creating or truncating a regular file at a path without \<open>.\<close> and \<open>..\<close> and writing its
  content. The order in which a platform lists a directory is its own; the model fixes
  one: a new entry is listed after the entries the directory already has, and an existing
  entry keeps its place.
\<close>

fun fs_write :: "node \<Rightarrow> str list \<Rightarrow> bytes \<Rightarrow> errno + node" where
  "fs_write (File old) [] b = Inr (File b)"
| "fs_write (Dir es) [] b = Inl EISDIR"
| "fs_write (File old) (c # cs) b = Inl ENOTDIR"
| "fs_write (Dir es) (c # cs) b =
     (case map_of es c of
        None \<Rightarrow> (if cs = [] then Inr (Dir (es @ [(c, File b)])) else Inl ENOENT)
      | Some n \<Rightarrow>
          (case fs_write n cs b of
             Inl e \<Rightarrow> Inl e
           | Inr n' \<Rightarrow> Inr (Dir (AList.update c n' es))))"

text \<open>
  \<open>open(p, 'w')\<close> followed by writing: the kernel walks to the directory of the last
  component and creates or truncates the file there. A path that ends in a slash, in
  \<open>.\<close> or in \<open>..\<close> names a directory, which cannot be opened for writing.
\<close>

definition fs_create :: "node \<Rightarrow> str \<Rightarrow> bytes \<Rightarrow> fault + node" where
  "fs_create tree p b =
     (if \<not> fsencodable p then Inl NotEncodable
      else if 0 \<in> set p then Inl NullByte
      else if p = [] then Inl (Errno ENOENT)
      else if PATH_MAX \<le> fsencode_len p then Inl (Errno ENAMETOOLONG)
      else if kernel_components p = [] then Inl (Errno EISDIR)
      else (case walk tree [] (butlast (kernel_components p)) of
              Inl e \<Rightarrow> Inl (Errno e)
            | Inr cur \<Rightarrow>
                (case fs_lookup tree cur of
                   Inl e \<Rightarrow> Inl (Errno e)
                 | Inr (File old) \<Rightarrow> Inl (Errno ENOTDIR)
                 | Inr (Dir es) \<Rightarrow>
                     if last p = 47 \<or> last (kernel_components p) = [46]
                        \<or> last (kernel_components p) = [46, 46]
                     then Inl (Errno EISDIR)
                     else if NAME_MAX < fsencode_len (last (kernel_components p))
                     then Inl (Errno ENAMETOOLONG)
                     else (case fs_write tree (cur @ [last (kernel_components p)]) b of
                             Inl e \<Rightarrow> Inl (Errno e)
                           | Inr n \<Rightarrow> Inr n))))"

text \<open>
  The world the script runs in: the file system; the lines printed so far (one element for
  each call of \<open>print\<close>, without the newline that ends it); the paths of the files opened
  for reading so far; and the code points above U+007F that the console can encode (its
  encoding and error handler: a strict UTF-8 console takes all but the surrogates, a
  legacy code page takes few).
\<close>

record world =
  fs :: node
  stdout :: "str list"
  reads :: "str list"
  console :: "nat \<Rightarrow> bool"

text \<open>
  \<open>print(s)\<close> encodes the whole line before it writes any of it, and raises
  \<open>UnicodeEncodeError\<close> when the console cannot encode a character.
\<close>

definition encodable :: "world \<Rightarrow> str \<Rightarrow> bool" where
  "encodable w s = list_all (\<lambda>c. c < 128 \<or> console w c) s"

definition print :: "str \<Rightarrow> world \<Rightarrow> (error + unit) \<times> world" where
  "print s w =
     (if encodable w s then (Inr (), w\<lparr>stdout := stdout w @ [s]\<rparr>)
      else (Inl (UnicodeEncodeError s), w))"

text \<open>
  \<open>p.exists()\<close>, as CPython 3.11 has it: true when \<open>os.stat\<close> of the path's string
  succeeds; false when it fails with \<open>ENOENT\<close> or \<open>ENOTDIR\<close> or raises a \<open>ValueError\<close>;
  any other \<open>OSError\<close> goes on to the caller.
\<close>

definition ignored :: "fault \<Rightarrow> bool" where
  "ignored f \<longleftrightarrow> f = Errno ENOENT \<or> f = Errno ENOTDIR \<or> f = NullByte \<or> f = NotEncodable"

definition exists :: "path \<Rightarrow> world \<Rightarrow> error + bool" where
  "exists p w =
     (case fs_stat (fs w) (fspath p) of
        Inr n \<Rightarrow> Inr True
      | Inl f \<Rightarrow> if ignored f then Inr False else Inl (raise_fault f (fspath p)))"

text \<open>\<open>p.iterdir()\<close>: the children of a directory, in listing order.\<close>

definition iterdir :: "path \<Rightarrow> world \<Rightarrow> error + path list" where
  "iterdir p w =
     (case fs_stat (fs w) (fspath p) of
        Inl f \<Rightarrow> Inl (raise_fault f (fspath p))
      | Inr (File b) \<Rightarrow> Inl (NotADirectoryError (fspath p))
      | Inr (Dir es) \<Rightarrow> Inr (map (\<lambda>e. make_child p (fst e)) es))"

text \<open>\<open>open(p, 'rb')\<close> followed by \<open>read()\<close>: the whole content of a regular file.\<close>

definition fs_read :: "node \<Rightarrow> str \<Rightarrow> error + bytes" where
  "fs_read n p =
     (case fs_stat n p of
        Inl f \<Rightarrow> Inl (raise_fault f p)
      | Inr (Dir es) \<Rightarrow> Inl (IsADirectoryError p)
      | Inr (File b) \<Rightarrow> Inr b)"

definition read_bytes :: "str \<Rightarrow> world \<Rightarrow> (error + bytes) \<times> world" where
  "read_bytes p w =
     (case fs_read (fs w) p of
        Inl e \<Rightarrow> (Inl e, w)
      | Inr b \<Rightarrow> (Inr b, w\<lparr>reads := reads w @ [p]\<rparr>))"

text \<open>
  \<open>open(p, 'w')\<close> followed by writing ASCII text: the file is created or replaced. The text
  the script writes is ASCII (\<open>json.dump\<close> escapes everything else), so each character is
  one octet.
\<close>

definition write_text :: "str \<Rightarrow> str \<Rightarrow> world \<Rightarrow> (error + unit) \<times> world" where
  "write_text p text w =
     (case fs_create (fs w) p (map of_nat text) of
        Inl f \<Rightarrow> (Inl (raise_fault f p), w)
      | Inr n \<Rightarrow> (Inr (), w\<lparr>fs := n\<rparr>))"


section \<open>JSON (\<open>json.dump\<close> with \<open>indent=2\<close>)\<close>

text \<open>
  A string is written between double quotes with \<open>"\<close> and \<open>\\<close> escaped, the printable
  ASCII characters as they are, and every other code point as a backslash escape
  (\<open>ensure_ascii\<close> is on by default); a code point above U+FFFF becomes a surrogate pair.
\<close>

definition hex_digit :: "nat \<Rightarrow> nat" where
  "hex_digit d = (if d < 10 then 48 + d else 87 + d)"

definition hex4 :: "nat \<Rightarrow> str" where
  "hex4 n = map hex_digit [n div 4096 mod 16, n div 256 mod 16, n div 16 mod 16, n mod 16]"

definition json_escape :: "nat \<Rightarrow> str" where
  "json_escape c =
     (if c = 34 then [92, 34]
      else if c = 92 then [92, 92]
      else if 32 \<le> c \<and> c \<le> 126 then [c]
      else if c = 8 then [92, 98]
      else if c = 9 then [92, 116]
      else if c = 10 then [92, 110]
      else if c = 12 then [92, 102]
      else if c = 13 then [92, 114]
      else if c < 65536 then [92, 117] @ hex4 c
      else (let n = c - 65536
            in [92, 117] @ hex4 (55296 + n div 1024 mod 1024)
               @ [92, 117] @ hex4 (56320 + n mod 1024)))"

definition encode_basestring_ascii :: "str \<Rightarrow> str" where
  "encode_basestring_ascii s = [34] @ concat (map json_escape s) @ [34]"

text \<open>
  A dictionary of strings: \<open>{}\<close> when it is empty; otherwise one \<open>"key": "value"\<close> item
  on each line, indented by two spaces, the items separated by a comma, in insertion order.
\<close>

definition json_item :: "str \<times> str \<Rightarrow> str" where
  "json_item kv = encode_basestring_ascii (fst kv) @ lit '': '' @ encode_basestring_ascii (snd kv)"

definition json_dumps :: "(str \<times> str) list \<Rightarrow> str" where
  "json_dumps dct =
     (if dct = [] then lit ''{}''
      else lit ''{'' @ [10] @ lit ''  ''
           @ join (lit '','' @ [10] @ lit ''  '') (map json_item dct)
           @ [10] @ lit ''}'')"


section \<open>The script\<close>

subsection \<open>The general-purpose converter\<close>

text \<open>
  A \<open>dict\<close> with string keys is an association list in insertion order; storing under a
  key that is present replaces the value in place (\<open>AList.update\<close>), and \<open>get\<close> with a
  default reads it.
\<close>

definition mime_types :: "(str \<times> str) list" where
  "mime_types =
     [(lit ''png'', lit ''image/png''),
      (lit ''jpg'', lit ''image/jpeg''),
      (lit ''jpeg'', lit ''image/jpeg''),
      (lit ''gif'', lit ''image/gif''),
      (lit ''webp'', lit ''image/webp'')]"

definition dict_get :: "(str \<times> str) list \<Rightarrow> str \<Rightarrow> str \<Rightarrow> str" where
  "dict_get d k dflt = (case map_of d k of None \<Rightarrow> dflt | Some v \<Rightarrow> v)"

text \<open>
  \<open>image_to_data_uri(image_path)\<close>. The argument is a string or a path object; \<open>open\<close>
  and \<open>os.path.splitext\<close> both work on its \<open>os.fspath\<close>, which is what this function takes.
\<close>

definition image_to_data_uri :: "str \<Rightarrow> world \<Rightarrow> (error + str) \<times> world" where
  "image_to_data_uri image_path w =
     (case read_bytes image_path w of
        (Inl e, w') \<Rightarrow> (Inl e, w')
      | (Inr content, w') \<Rightarrow>
          (let encoded = b64encode content;
               ext = lower (drop 1 (snd (splitext image_path)));
               mime = dict_get mime_types ext (lit ''image/png'')
           in (Inr (lit ''data:'' @ mime @ lit '';base64,'' @ encoded), w')))"

definition extensions :: "str list" where
  "extensions = [lit ''.png'', lit ''.jpg'', lit ''.jpeg'', lit ''.gif'', lit ''.webp'']"

text \<open>The \<open>for\<close> loop of \<open>convert_all_images_in_folder\<close> over the listed children.\<close>

fun convert_loop ::
  "path list \<Rightarrow> (str \<times> str) list \<Rightarrow> world \<Rightarrow> (error + (str \<times> str) list) \<times> world" where
  "convert_loop [] results w = (Inr results, w)"
| "convert_loop (image_file # rest) results w =
     (if lower (path_suffix image_file) \<in> set extensions then
        (case print (lit ''Converting: '' @ path_name image_file) w of
           (Inl e, w1) \<Rightarrow> (Inl e, w1)
         | (Inr u, w1) \<Rightarrow>
             (case image_to_data_uri (fspath image_file) w1 of
                (Inl e, w2) \<Rightarrow> (Inl e, w2)
              | (Inr data_uri, w2) \<Rightarrow>
                  convert_loop rest (AList.update (path_name image_file) data_uri results) w2))
      else convert_loop rest results w)"

definition check_mark :: str where
  "check_mark = [10003]"

text \<open>The lines printed one after the other; the first that fails ends the run.\<close>

fun print_lines :: "str list \<Rightarrow> world \<Rightarrow> (error + unit) \<times> world" where
  "print_lines [] w = (Inr (), w)"
| "print_lines (s # ss) w =
     (case print s w of
        (Inl e, w1) \<Rightarrow> (Inl e, w1)
      | (Inr u, w1) \<Rightarrow> print_lines ss w1)"

definition convert_all_images_in_folder :: "str \<Rightarrow> world \<Rightarrow> (error + unit) \<times> world" where
  "convert_all_images_in_folder folder_path w =
     (let folder = Path folder_path
      in case exists folder w of
           Inl e \<Rightarrow> (Inl e, w)
         | Inr False \<Rightarrow>
             print (lit ''Error: Folder '' @ [39] @ folder_path @ [39] @ lit '' not found!'') w
         | Inr True \<Rightarrow>
             (case iterdir folder w of
                Inl e \<Rightarrow> (Inl e, w)
              | Inr children \<Rightarrow>
                  (case convert_loop children [] w of
                     (Inl e, w1) \<Rightarrow> (Inl e, w1)
                   | (Inr results, w1) \<Rightarrow>
                       (let output_file = joinpath folder (lit ''converted_images.json'')
                        in case write_text (fspath output_file) (json_dumps results) w1 of
                             (Inl e, w2) \<Rightarrow> (Inl e, w2)
                           | (Inr u, w2) \<Rightarrow>
                               print_lines
                                 [[10] @ check_mark @ lit '' Converted ''
                                    @ str_of_nat (length results) @ lit '' images'',
                                  check_mark @ lit '' Results saved to: '' @ fspath output_file,
                                  [10] @ lit ''You can now copy the data URIs from the JSON file!'']
                                 w2))))"

subsection \<open>The fixed-folder variant\<close>

text \<open>
  The second script of the file: it lists \<open>primary\<close> without checking that it exists,
  encodes the files whose suffix is \<open>.png\<close>, \<open>.jpg\<close> or \<open>.jpeg\<close> inline, and writes
  the dictionary to \<open>examples/converted_images.json\<close>.
\<close>

fun fixed_folder_loop ::
  "path list \<Rightarrow> (str \<times> str) list \<Rightarrow> world \<Rightarrow> (error + (str \<times> str) list) \<times> world" where
  "fixed_folder_loop [] results w = (Inr results, w)"
| "fixed_folder_loop (img # rest) results w =
     (if lower (path_suffix img) \<in> set [lit ''.png'', lit ''.jpg'', lit ''.jpeg''] then
        (case read_bytes (fspath img) w of
           (Inl e, w1) \<Rightarrow> (Inl e, w1)
         | (Inr content, w1) \<Rightarrow>
             (let encoded = b64encode content;
                  mime = (if lower (path_suffix img) = lit ''.jpg''
                          then lit ''image/jpeg'' else lit ''image/png'');
                  results' = AList.update (path_name img)
                               (lit ''data:'' @ mime @ lit '';base64,'' @ encoded) results
              in case print (lit ''Converted: '' @ path_name img) w1 of
                   (Inl e, w2) \<Rightarrow> (Inl e, w2)
                 | (Inr u, w2) \<Rightarrow> fixed_folder_loop rest results' w2))
      else fixed_folder_loop rest results w)"

definition fixed_folder_script :: "world \<Rightarrow> (error + unit) \<times> world" where
  "fixed_folder_script w =
     (let folder = Path (lit ''primary'')
      in case iterdir folder w of
           Inl e \<Rightarrow> (Inl e, w)
         | Inr children \<Rightarrow>
             (case fixed_folder_loop children [] w of
                (Inl e, w1) \<Rightarrow> (Inl e, w1)
              | (Inr results, w1) \<Rightarrow>
                  (case write_text (lit ''examples/converted_images.json'') (json_dumps results) w1 of
                     (Inl e, w2) \<Rightarrow> (Inl e, w2)
                   | (Inr u, w2) \<Rightarrow>
                       print ([10] @ lit ''Done! Saved to examples/converted_images.json'') w2)))"


section \<open>Notions used in the statements and proofs\<close>

text \<open>A component a path object keeps: not empty, not \<open>.\<close>, and without a slash.\<close>

definition clean :: "str \<Rightarrow> bool" where
  "clean x \<longleftrightarrow> x \<noteq> [] \<and> x \<noteq> [46] \<and> 47 \<notin> set x"

text \<open>A path string that the kernel takes and walks.\<close>

definition admissible :: "str \<Rightarrow> bool" where
  "admissible p \<longleftrightarrow> fsencodable p \<and> 0 \<notin> set p \<and> p \<noteq> [] \<and> fsencode_len p < PATH_MAX"

text \<open>The entry at the end of a walk.\<close>

definition reach :: "node \<Rightarrow> str list \<Rightarrow> str list \<Rightarrow> errno + node" where
  "reach tree cur cs =
     (case walk tree cur cs of
        Inl e \<Rightarrow> Inl e
      | Inr r \<Rightarrow> fs_lookup tree r)"

text \<open>The string \<open>image_to_data_uri\<close> builds for a path and the content read from it.\<close>

definition data_uri_of :: "str \<Rightarrow> bytes \<Rightarrow> str" where
  "data_uri_of image_path content =
     lit ''data:''
     @ dict_get mime_types (lower (drop 1 (snd (splitext image_path)))) (lit ''image/png'')
     @ lit '';base64,'' @ b64encode content"

text \<open>
  The extension to MIME table in the words of the specification: \<open>png\<close> yields
  \<open>image/png\<close>, \<open>jpg\<close> and \<open>jpeg\<close> yield \<open>image/jpeg\<close>, \<open>gif\<close> yields
  \<open>image/gif\<close>, \<open>webp\<close> yields \<open>image/webp\<close>, anything else \<open>image/png\<close>.
\<close>

definition spec_mime :: "str \<Rightarrow> str" where
  "spec_mime e =
     (if e = lit ''png'' then lit ''image/png''
      else if e = lit ''jpg'' \<or> e = lit ''jpeg'' then lit ''image/jpeg''
      else if e = lit ''gif'' then lit ''image/gif''
      else if e = lit ''webp'' then lit ''image/webp''
      else lit ''image/png'')"

text \<open>
  The MIME segment of a data URI: what stands between the leading \<open>data:\<close> and the first
  semicolon. The Base64 portion: what follows the first occurrence of \<open>base64,\<close>.
\<close>

definition mime_segment :: "str \<Rightarrow> str" where
  "mime_segment uri = takeWhile (\<lambda>c. c \<noteq> 59) (drop 5 uri)"

fun after_marker :: "str \<Rightarrow> str \<Rightarrow> str option" where
  "after_marker m [] = (if m = [] then Some [] else None)"
| "after_marker m (x # xs) =
     (if take (length m) (x # xs) = m then Some (drop (length m) (x # xs))
      else after_marker m xs)"

definition base64_portion :: "str \<Rightarrow> str option" where
  "base64_portion uri = after_marker (lit ''base64,'') uri"

text \<open>\<open>c.isspace()\<close>: the white space characters of Unicode, as Python classifies them.\<close>

definition isspace :: "nat \<Rightarrow> bool" where
  "isspace c \<longleftrightarrow>
     (9 \<le> c \<and> c \<le> 13) \<or> (28 \<le> c \<and> c \<le> 32) \<or> c = 133 \<or> c = 160 \<or> c = 5760
     \<or> (8192 \<le> c \<and> c \<le> 8202) \<or> c = 8232 \<or> c = 8233 \<or> c = 8239 \<or> c = 8287
     \<or> c = 12288"

text \<open>\<open>os.path.isdir(p)\<close>: the path names a directory.\<close>

definition isdir :: "str \<Rightarrow> world \<Rightarrow> bool" where
  "isdir p w =
     (case fs_stat (fs w) p of
        Inr (Dir es) \<Rightarrow> True
      | _ \<Rightarrow> False)"

text \<open>
  The supported image extensions in the words of the specification: a suffix is supported
  when, compared without regard to the case of its letters, it is one of \<open>.png\<close>,
  \<open>.jpg\<close>, \<open>.jpeg\<close>, \<open>.gif\<close> and \<open>.webp\<close>. Two strings are equal without regard to
  case when they have the same length and agree character by character once the capital
  letters A to Z are replaced by their small letters.
\<close>

definition fold_case :: "nat \<Rightarrow> nat" where
  "fold_case c = (if 65 \<le> c \<and> c \<le> 90 then c + 32 else c)"

definition spec_image_suffix :: "str \<Rightarrow> bool" where
  "spec_image_suffix e \<longleftrightarrow>
     map fold_case e = lit ''.png'' \<or> map fold_case e = lit ''.jpg''
     \<or> map fold_case e = lit ''.jpeg'' \<or> map fold_case e = lit ''.gif''
     \<or> map fold_case e = lit ''.webp''"

text \<open>The three lines \<open>convert_all_images_in_folder\<close> prints after writing the file.\<close>

definition summary :: "path \<Rightarrow> nat \<Rightarrow> str list" where
  "summary output_file n =
     [[10] @ check_mark @ lit '' Converted '' @ str_of_nat n @ lit '' images'',
      check_mark @ lit '' Results saved to: '' @ fspath output_file,
      [10] @ lit ''You can now copy the data URIs from the JSON file!'']"

text \<open>
  A world to run the script in: the folder \<open>glyphs\<close> holds a PNG file and a text file;
  \<open>icons\<close> holds an empty GIF file; \<open>primary\<close> holds a JPEG file named with the long
  extension; \<open>examples\<close> is an empty folder; \<open>notes.txt\<close> is a regular file; the folder
  \<open>out\<close> holds a directory that has the name of the output file. The console is a
  strict UTF-8 one.
\<close>

definition example_fs :: node where
  "example_fs =
     Dir [(lit ''glyphs'',
             Dir [(lit ''a.png'', File [137, 80, 78, 71]),
                  (lit ''b.txt'', File [104, 105])]),
          (lit ''icons'', Dir [(lit ''empty.gif'', File [])]),
          (lit ''primary'', Dir [(lit ''photo.jpeg'', File [255, 216, 255])]),
          (lit ''examples'', Dir []),
          (lit ''notes.txt'', File [104, 105]),
          (lit ''out'', Dir [(lit ''converted_images.json'', Dir [])])]"

definition example_world :: world where
  "example_world =
     \<lparr> fs = example_fs, stdout = [], reads = [],
       console = (\<lambda>c. c < 55296 \<or> 57343 < c) \<rparr>"


section \<open>Checks of the library model on known values\<close>

lemma b64encode_rfc4648_examples:
  "b64encode (map of_nat (lit ''f'')) = lit ''Zg==''"
  "b64encode (map of_nat (lit ''fo'')) = lit ''Zm8=''"
  "b64encode (map of_nat (lit ''foobar'')) = lit ''Zm9vYmFy''"
  by (simp_all add: lit_def b64_char_def bytes_to_nat_def)

lemma b64_alphabet:
  "map b64_char [0..<64]
     = lit ''ABCDEFGHIJKLMNOPQRSTUVWXYZabcdefghijklmnopqrstuvwxyz0123456789+/''"
  by (simp add: lit_def b64_char_def upt_rec)

lemma splitext_examples:
  "splitext (lit ''glyphs/m_00.png'') = (lit ''glyphs/m_00'', lit ''.png'')"
  "splitext (lit ''dir.d/readme'') = (lit ''dir.d/readme'', [])"
  "splitext (lit ''a/.bashrc'') = (lit ''a/.bashrc'', [])"
  "splitext (lit ''..jpg'') = (lit ''..jpg'', [])"
  "splitext (lit ''x.tar.GZ'') = (lit ''x.tar'', lit ''.GZ'')"
  by (simp_all add: lit_def splitext_def splitext_scan.simps)

lemma path_examples:
  "fspath (Path (lit ''glyphs'')) = lit ''glyphs''"
  "fspath (Path (lit ''a//b/./c/'')) = lit ''a/b/c''"
  "fspath (Path (lit ''/'')) = lit ''/''"
  "fspath (Path []) = lit ''.''"
  "fspath (joinpath (Path (lit ''glyphs'')) (lit ''converted_images.json''))
     = lit ''glyphs/converted_images.json''"
  "path_suffix (Path (lit ''a/b.PNG'')) = lit ''.PNG''"
  "path_suffix (Path (lit ''.png'')) = []"
  "path_suffix (Path (lit ''a.'')) = []"
  "path_suffix (Path (lit ''..jpg'')) = lit ''.jpg''"
  by (simp_all add: lit_def Path_def fspath_def joinpath_def path_components_def
       path_suffix_def suffix_of_name_def path_name_def)

lemma json_dumps_examples:
  "json_dumps [] = lit ''{}''"
  "json_dumps [(lit ''a'', lit ''b''), ([233, 34], [128512])]
     = lit ''{'' @ [10] @ lit ''  \"a\": \"b\",'' @ [10]
       @ lit ''  \"'' @ [92] @ lit ''u00e9'' @ [92] @ lit ''\"\": \"''
       @ [92] @ lit ''ud83d'' @ [92] @ lit ''ude00\"'' @ [10] @ lit ''}''"
  by (simp_all add: lit_def json_dumps_def json_item_def encode_basestring_ascii_def
       json_escape_def hex4_def hex_digit_def)

lemma fs_stat_examples:
  "fs_stat example_fs (lit ''glyphs/../glyphs/./a.png'') = Inr (File [137, 80, 78, 71])"
  "fs_stat example_fs (lit ''/glyphs//a.png'') = Inr (File [137, 80, 78, 71])"
  "fs_stat example_fs (lit ''glyphs/a.png/'') = Inl (Errno ENOTDIR)"
  "fs_stat example_fs (lit ''notes.txt/.'') = Inl (Errno ENOTDIR)"
  "fs_stat example_fs (lit ''notes.txt/..'') = Inl (Errno ENOTDIR)"
  "fs_stat example_fs (lit ''nowhere/..'') = Inl (Errno ENOENT)"
  "fs_stat example_fs (lit ''../examples'') = Inr (Dir [])"
  "fs_stat example_fs [] = Inl (Errno ENOENT)"
  "fs_stat example_fs [97, 0] = Inl NullByte"
  "fs_stat example_fs [55296] = Inl NotEncodable"
  by (simp_all add: lit_def example_fs_def fs_stat_def resolve_def kernel_components_def
       fsencodable_def fsencode_len_def utf8_len_def NAME_MAX_def PATH_MAX_def)

lemma open_examples:
  "fs_read example_fs (lit ''notes.txt'') = Inr [104, 105]"
  "fs_read example_fs (lit ''notes.txt/.'') = Inl (NotADirectoryError (lit ''notes.txt/.''))"
  "fs_read example_fs (lit ''glyphs'') = Inl (IsADirectoryError (lit ''glyphs''))"
  "fs_create example_fs (lit ''glyphs/'') [] = Inl (Errno EISDIR)"
  "fs_create example_fs (lit ''nowhere/'') [] = Inl (Errno EISDIR)"
  "fs_create example_fs (lit ''glyphs/..'') [] = Inl (Errno EISDIR)"
  "fs_create example_fs (lit ''nowhere/x'') [] = Inl (Errno ENOENT)"
  "fs_create example_fs (lit ''notes.txt/x'') [] = Inl (Errno ENOTDIR)"
  "fs_create example_fs (lit ''out/converted_images.json'') [] = Inl (Errno EISDIR)"
  "fs_create example_fs (lit ''icons/../examples/x'') [1] = Inr n \<longleftrightarrow>
     fs_write example_fs [lit ''examples'', lit ''x''] [1] = Inr n"
  by (simp_all add: lit_def example_fs_def fs_read_def fs_create_def fs_stat_def resolve_def
       kernel_components_def fsencodable_def fsencode_len_def utf8_len_def NAME_MAX_def
       PATH_MAX_def)

lemma exists_examples:
  "exists (Path (lit ''glyphs/../glyphs'')) example_world = Inr True"
  "exists (Path (lit ''notes.txt/'')) example_world = Inr True"
  "exists (Path (lit ''nowhere'')) example_world = Inr False"
  "exists (Path (lit ''notes.txt/x'')) example_world = Inr False"
  "exists (Path [97, 0]) example_world = Inr False"
  "print [10003] (example_world\<lparr>console := (\<lambda>c. False)\<rparr>)
     = (Inl (UnicodeEncodeError [10003]), example_world\<lparr>console := (\<lambda>c. False)\<rparr>)"
  by (simp_all add: lit_def example_world_def example_fs_def exists_def ignored_def fs_stat_def
       resolve_def kernel_components_def fsencodable_def fsencode_len_def utf8_len_def
       NAME_MAX_def PATH_MAX_def Path_def fspath_def path_components_def print_def
       encodable_def)


section \<open>Base64: decoding what was encoded\<close>

lemma b64_index_char: "b64_index (b64_char i) = Some (i mod 64)"
proof -
  have "i mod 64 < 64" by simp
  then show ?thesis
    unfolding b64_char_def b64_index_def Let_def by auto
qed

lemma b64_char_not_pad: "b64_char i \<noteq> 61"
proof -
  have "i mod 64 < 64" by simp
  then show ?thesis
    unfolding b64_char_def Let_def by auto
qed

lemma unat_byte_less: "unat (a :: 8 word) < 256"
  using unsigned_less [of a] by simp

lemma bytes_to_nat_less: "bytes_to_nat a b c < 16777216"
  using unat_byte_less [of a] unat_byte_less [of b] unat_byte_less [of c]
  by (simp add: bytes_to_nat_def)

lemma bytes_to_nat_hi: "bytes_to_nat a b c div 65536 = unat a"
  using unat_byte_less [of b] unat_byte_less [of c]
  by (simp add: bytes_to_nat_def)

lemma bytes_to_nat_lo: "bytes_to_nat a b c mod 256 = unat c"
proof -
  define q where "q = unat a * 256 + unat b"
  have "bytes_to_nat a b c = q * 256 + unat c"
    by (simp add: bytes_to_nat_def q_def)
  then show ?thesis
    using unat_byte_less [of c] by simp
qed

lemma bytes_to_nat_mid: "bytes_to_nat a b c div 256 mod 256 = unat b"
proof -
  define q where "q = unat a * 256 + unat b"
  have "bytes_to_nat a b c = q * 256 + unat c"
    by (simp add: bytes_to_nat_def q_def)
  then have "bytes_to_nat a b c div 256 = q"
    using unat_byte_less [of c] by simp
  then show ?thesis
    using unat_byte_less [of b] by (simp add: q_def)
qed

lemma sextets_to_nat_2:
  assumes "n < 16777216"
  shows "sextets_to_nat (n div 262144 mod 64) (n div 4096 mod 64) 0 0 = n div 4096 * 4096"
proof -
  define q where "q = n div 4096"
  have "n div 262144 = q div 64"
    by (simp add: q_def div_mult2_eq)
  moreover have "q div 64 < 64"
    using assms by (simp add: q_def)
  ultimately have "n div 262144 mod 64 * 64 + q mod 64 = q"
    by simp
  then have "sextets_to_nat (n div 262144 mod 64) (q mod 64) 0 0 = q * 4096"
    by (simp add: sextets_to_nat_def)
  then show ?thesis
    by (simp only: q_def)
qed

lemma sextets_to_nat_3:
  assumes "n < 16777216"
  shows "sextets_to_nat (n div 262144 mod 64) (n div 4096 mod 64) (n div 64 mod 64) 0
           = n div 64 * 64"
proof -
  define q where "q = n div 64"
  have "n div 4096 = q div 64" "n div 262144 = q div 64 div 64"
    by (simp_all add: q_def div_mult2_eq)
  moreover have "q div 64 div 64 < 64"
    using assms by (simp add: q_def)
  ultimately have "(n div 262144 mod 64 * 64 + n div 4096 mod 64) * 64 + q mod 64 = q"
    by simp
  then have "sextets_to_nat (n div 262144 mod 64) (n div 4096 mod 64) (q mod 64) 0 = q * 64"
    by (simp only: sextets_to_nat_def add_0_right)
  then show ?thesis
    by (simp only: q_def)
qed

lemma sextets_to_nat_4:
  assumes "n < 16777216"
  shows "sextets_to_nat (n div 262144 mod 64) (n div 4096 mod 64) (n div 64 mod 64) (n mod 64)
           = n"
proof -
  have "sextets_to_nat (n div 262144 mod 64) (n div 4096 mod 64) (n div 64 mod 64) (n mod 64)
      = sextets_to_nat (n div 262144 mod 64) (n div 4096 mod 64) (n div 64 mod 64) 0 + n mod 64"
    by (simp add: sextets_to_nat_def)
  then show ?thesis
    by (simp only: sextets_to_nat_3 [OF assms] div_mult_mod_eq)
qed

lemma div_mult_4096: "(n::nat) div 4096 * 4096 div 65536 = n div 65536"
proof -
  have "n div 4096 * 4096 div 65536 = n div 4096 * 4096 div 4096 div 16"
    by (simp add: div_mult2_eq [symmetric])
  also have "\<dots> = n div 4096 div 16"
    by simp
  also have "\<dots> = n div 65536"
    by (simp add: div_mult2_eq [symmetric])
  finally show ?thesis .
qed

lemma div_mult_64:
  fixes n :: nat
  shows "n div 64 * 64 div 65536 = n div 65536"
    and "n div 64 * 64 div 256 = n div 256"
proof -
  have "n div 64 * 64 div 65536 = n div 64 * 64 div 64 div 1024"
    by (simp add: div_mult2_eq [symmetric])
  also have "\<dots> = n div 64 div 1024"
    by simp
  also have "\<dots> = n div 65536"
    by (simp add: div_mult2_eq [symmetric])
  finally show "n div 64 * 64 div 65536 = n div 65536" .
  have "n div 64 * 64 div 256 = n div 64 * 64 div 64 div 4"
    by (simp add: div_mult2_eq [symmetric])
  also have "\<dots> = n div 64 div 4"
    by simp
  also have "\<dots> = n div 256"
    by (simp add: div_mult2_eq [symmetric])
  finally show "n div 64 * 64 div 256 = n div 256" .
qed

lemma b64decode_b64encode: "b64decode (b64encode bs) = Some bs"
proof (induction bs rule: b64encode.induct)
  case 1
  show ?case by simp
next
  case (2 a)
  define n where "n = bytes_to_nat a 0 0"
  have idx: "b64_index (b64_char (n div 262144)) = Some (n div 262144 mod 64)"
    "b64_index (b64_char (n div 4096)) = Some (n div 4096 mod 64)"
    by (simp_all only: b64_index_char)
  have m: "sextets_to_nat (n div 262144 mod 64) (n div 4096 mod 64) 0 0 = n div 4096 * 4096"
    by (rule sextets_to_nat_2) (simp add: n_def bytes_to_nat_less)
  have "b64decode (b64encode [a]) = Some [of_nat (n div 65536)]"
    by (simp add: n_def [symmetric] idx m div_mult_4096 del: of_nat_div)
  then show ?case
    by (simp add: n_def bytes_to_nat_hi)
next
  case (3 a b)
  define n where "n = bytes_to_nat a b 0"
  have idx: "b64_index (b64_char (n div 262144)) = Some (n div 262144 mod 64)"
    "b64_index (b64_char (n div 4096)) = Some (n div 4096 mod 64)"
    "b64_index (b64_char (n div 64)) = Some (n div 64 mod 64)"
    by (simp_all only: b64_index_char)
  have m: "sextets_to_nat (n div 262144 mod 64) (n div 4096 mod 64) (n div 64 mod 64) 0
             = n div 64 * 64"
    by (rule sextets_to_nat_3) (simp add: n_def bytes_to_nat_less)
  have "b64decode (b64encode [a, b]) = Some [of_nat (n div 65536), of_nat (n div 256 mod 256)]"
    by (simp add: n_def [symmetric] idx m div_mult_64 b64_char_not_pad del: of_nat_div)
  then show ?case
    by (simp add: n_def bytes_to_nat_hi bytes_to_nat_mid)
next
  case (4 a b c rest)
  define n where "n = bytes_to_nat a b c"
  have idx: "b64_index (b64_char (n div 262144)) = Some (n div 262144 mod 64)"
    "b64_index (b64_char (n div 4096)) = Some (n div 4096 mod 64)"
    "b64_index (b64_char (n div 64)) = Some (n div 64 mod 64)"
    "b64_index (b64_char n) = Some (n mod 64)"
    by (simp_all only: b64_index_char)
  have m: "sextets_to_nat (n div 262144 mod 64) (n div 4096 mod 64) (n div 64 mod 64) (n mod 64)
             = n"
    by (rule sextets_to_nat_4) (simp add: n_def bytes_to_nat_less)
  have "b64decode (b64encode (a # b # c # rest))
      = Some (of_nat (n div 65536) # of_nat (n div 256 mod 256) # of_nat (n mod 256) # rest)"
    using "4.IH"
    by (simp add: n_def [symmetric] idx m b64_char_not_pad del: of_nat_div)
  then show ?case
    by (simp add: n_def bytes_to_nat_hi bytes_to_nat_mid bytes_to_nat_lo)
qed

section \<open>Splitting and joining paths\<close>

lemma split_on_not_Nil: "split_on c s \<noteq> []"
  by (induction s) (auto split: list.splits)

lemma split_on_append_sep: "split_on c (a @ c # b) = split_on c a @ split_on c b"
  by (induction a) (auto simp: split_on_not_Nil split: list.splits)

lemma split_on_no_sep: "c \<notin> set a \<Longrightarrow> split_on c a = [a]"
  by (induction a) auto

lemma split_on_parts_no_sep: "x \<in> set (split_on c s) \<Longrightarrow> c \<notin> set x"
  by (induction s arbitrary: x) (auto split: if_splits list.splits)

lemma last_split_on:
  assumes "s \<noteq> []" "last s \<noteq> c"
  shows "last (split_on c s) \<noteq> [] \<and> last (last (split_on c s)) = last s"
  using assms
proof (induction s)
  case Nil
  then show ?case by simp
next
  case (Cons x s)
  show ?case
  proof (cases "s = []")
    case True
    with Cons.prems show ?thesis by simp
  next
    case False
    with Cons.prems have "last s \<noteq> c" by simp
    with Cons.IH False
    have IH: "last (split_on c s) \<noteq> []" "last (last (split_on c s)) = last s"
      by simp_all
    obtain y ys where ys: "split_on c s = y # ys"
      using split_on_not_Nil [of c s] by (cases "split_on c s") auto
    show ?thesis
      using IH False by (cases "ys = []") (auto simp: ys)
  qed
qed

lemma path_components_clean: "x \<in> set (path_components s) \<Longrightarrow> clean x"
  by (auto simp: path_components_def clean_def dest: split_on_parts_no_sep)

lemma path_components_Nil [simp]: "path_components [] = []"
  by (simp add: path_components_def)

lemma path_components_sep_append:
  "path_components (a @ 47 # b) = path_components a @ path_components b"
  by (simp add: path_components_def split_on_append_sep)

lemma path_components_sep [simp]: "path_components (47 # b) = path_components b"
  using path_components_sep_append [of "[]" b] by simp

lemma join_snoc: "join sep (ps @ [x]) = (if ps = [] then x else join sep ps @ sep @ x)"
  by (induction sep ps rule: join.induct) auto

lemma join_Nil_iff: "join sep (ps @ [x]) = [] \<Longrightarrow> x = []"
  by (simp add: join_snoc split: if_splits)

lemma root_Path: "root (Path s) = [] \<or> root (Path s) = [47] \<or> root (Path s) = [47, 47]"
  by (simp add: Path_def)

lemma parts_Path [simp]: "parts (Path s) = path_components s"
  by (simp add: Path_def)

lemma path_name_make_child [simp]: "path_name (make_child p n) = n"
  by (simp add: path_name_def make_child_def)

lemma path_suffix_make_child [simp]: "path_suffix (make_child p n) = suffix_of_name n"
  by (simp add: path_suffix_def)

lemma joinpath_output [simp]:
  "joinpath (Path s) (lit ''converted_images.json'')
     = make_child (Path s) (lit ''converted_images.json'')"
  by (simp add: joinpath_def make_child_def Path_def path_components_def lit_def)

lemma clean_output: "clean (lit ''converted_images.json'')"
  by (simp add: clean_def lit_def)

lemma fspath_child_last:
  assumes "n \<noteq> []"
  shows "fspath (make_child p n) \<noteq> [] \<and> last (fspath (make_child p n)) = last n"
  using assms by (auto simp: fspath_def make_child_def Let_def join_snoc)

subsection \<open>Suffixes\<close>

lemma suffix_of_name_last:
  assumes "suffix_of_name n \<noteq> []"
  shows "n \<noteq> [] \<and> last n = last (suffix_of_name n)"
proof -
  from assms obtain i where i: "suffix_of_name n = drop i n" "drop i n \<noteq> []"
    by (auto simp: suffix_of_name_def Let_def split: if_splits)
  then show ?thesis by auto
qed

lemma lower_cp_not_Nil: "lower_cp c \<noteq> []"
  by (simp add: lower_cp_def)

lemma last_lower:
  assumes "s \<noteq> []"
  shows "lower s \<noteq> [] \<and> last (lower s) = last (lower_cp (last s))"
proof -
  from assms obtain xs x where s: "s = xs @ [x]"
    by (cases s rule: rev_cases) auto
  then show ?thesis
    by (simp add: lower_def lower_cp_not_Nil)
qed

lemma lower_Nil_iff: "lower s = [] \<longleftrightarrow> s = []"
  by (cases s) (auto simp: lower_def lower_cp_not_Nil)

lemma extensions_last:
  assumes "e \<in> set extensions"
  shows "e \<noteq> [] \<and> last e \<in> {102, 103, 112}"
  using assms by (auto simp: extensions_def lit_def)

lemma supported_last:
  assumes "lower (suffix_of_name n) \<in> set extensions"
  shows "n \<noteq> [] \<and> last n \<in> {70, 71, 80, 102, 103, 112}"
proof -
  let ?s = "suffix_of_name n"
  have e: "lower ?s \<noteq> []" "last (lower ?s) \<in> {102, 103, 112}"
    using extensions_last [OF assms] by simp_all
  then have s: "?s \<noteq> []"
    by (simp add: lower_Nil_iff)
  have "last (lower_cp (last ?s)) \<in> {102, 103, 112}"
    using e last_lower [OF s] by simp
  then have "last ?s \<in> {70, 71, 80, 102, 103, 112}"
    by (auto simp: lower_cp_def split: if_splits)
  then show ?thesis
    using suffix_of_name_last [OF s] by simp
qed

lemma last_filter_keep:
  assumes "xs \<noteq> []" "P (last xs)"
  shows "last (filter P xs) = last xs"
  using assms by (cases xs rule: rev_cases) auto

lemma output_not_supported:
  "lower (suffix_of_name (lit ''converted_images.json'')) \<notin> set extensions"
  by (simp add: suffix_of_name_def lower_def lower_cp_def extensions_def lit_def)


subsection \<open>What the kernel sees of a path\<close>

lemma kernel_components_Nil [simp]: "kernel_components [] = []"
  by (simp add: kernel_components_def)

lemma kernel_components_sep_append:
  "kernel_components (a @ 47 # b) = kernel_components a @ kernel_components b"
  by (simp add: kernel_components_def split_on_append_sep)

lemma kernel_components_sep [simp]: "kernel_components (47 # b) = kernel_components b"
  using kernel_components_sep_append [of "[]" b] by simp

lemma path_components_kernel:
  "path_components s = filter (\<lambda>c. c \<noteq> [46]) (kernel_components s)"
  by (auto simp: path_components_def kernel_components_def intro: filter_cong)

lemma kernel_components_clean_id: "clean x \<Longrightarrow> kernel_components x = [x]"
  by (simp add: kernel_components_def clean_def split_on_no_sep)

lemma kernel_components_join:
  "\<forall>x\<in>set ps. clean x \<Longrightarrow> kernel_components (join [47] (ps @ [n])) = ps @ kernel_components n"
proof (induction ps)
  case Nil
  show ?case by simp
next
  case (Cons p ps)
  have "join [47] ((p # ps) @ [n]) = p @ 47 # join [47] (ps @ [n])"
    by (cases ps) simp_all
  with Cons show ?case
    by (simp add: kernel_components_sep_append kernel_components_clean_id)
qed

lemma kernel_components_join_clean:
  assumes "\<forall>x\<in>set ps. clean x"
  shows "kernel_components (join [47] ps) = ps"
proof (cases ps rule: rev_cases)
  case Nil
  then show ?thesis by simp
next
  case (snoc qs q)
  with assms show ?thesis
    by (simp add: kernel_components_join kernel_components_clean_id)
qed

lemma kernel_components_root: "kernel_components (root (Path s) @ t) = kernel_components t"
  using root_Path [of s] by auto

lemma join_clean_Nil:
  assumes "\<forall>x\<in>set ps. clean x" "join [47] ps = []"
  shows "ps = []"
proof (cases ps rule: rev_cases)
  case Nil
  then show ?thesis .
next
  case (snoc ys y)
  with assms(2) have "y = []"
    by (auto dest: join_Nil_iff)
  with assms(1) snoc show ?thesis
    by (simp add: clean_def)
qed

lemma fspath_Path_cases:
  "(root (Path s) = [] \<and> path_components s = [] \<and> fspath (Path s) = [46])
   \<or> ((root (Path s) \<noteq> [] \<or> path_components s \<noteq> [])
       \<and> fspath (Path s) = root (Path s) @ join [47] (path_components s))"
  using join_clean_Nil [of "path_components s"] path_components_clean [of _ s]
  by (auto simp: fspath_def Let_def)

lemma kernel_components_fspath_Path:
  "kernel_components (fspath (Path s)) =
     (if root (Path s) = [] \<and> path_components s = [] then [[46]] else path_components s)"
proof -
  have "kernel_components (root (Path s) @ join [47] (path_components s)) = path_components s"
    by (simp add: kernel_components_root kernel_components_join_clean path_components_clean)
  moreover have "kernel_components [46] = [[46]]"
    by (simp add: kernel_components_def)
  ultimately show ?thesis
    using fspath_Path_cases [of s] by auto
qed

lemma fspath_child:
  "n \<noteq> [] \<Longrightarrow>
     fspath (make_child (Path s) n) = root (Path s) @ join [47] (path_components s @ [n])"
  by (auto simp: fspath_def make_child_def Let_def dest: join_Nil_iff)

lemma kernel_components_fspath_child:
  assumes "n \<noteq> []"
  shows "kernel_components (fspath (make_child (Path s) n))
           = path_components s @ kernel_components n"
  by (simp add: fspath_child [OF assms] kernel_components_root kernel_components_join
        path_components_clean)

lemma kernel_components_output:
  "kernel_components (fspath (make_child (Path s) (lit ''converted_images.json'')))
     = path_components s @ [lit ''converted_images.json'']"
proof -
  have "lit ''converted_images.json'' \<noteq> []"
    by (simp add: lit_def)
  then show ?thesis
    by (simp add: kernel_components_fspath_child kernel_components_clean_id clean_output)
qed

lemma split_on_snoc_sep: "split_on c (a @ [c]) = split_on c a @ [[]]"
  using split_on_append_sep [of c a "[]"] by simp

lemma last_segment_not_Nil:
  assumes "last (split_on c s) \<noteq> []"
  shows "s \<noteq> [] \<and> last s \<noteq> c"
proof (cases s rule: rev_cases)
  case Nil
  with assms show ?thesis by simp
next
  case (snoc xs x)
  with assms show ?thesis
    by (auto simp: split_on_snoc_sep)
qed

lemma last_kernel_components:
  assumes "last (split_on 47 s) \<noteq> []"
  shows "kernel_components s \<noteq> [] \<and> last (kernel_components s) = last (split_on 47 s)"
proof -
  have "last (split_on 47 s) \<in> set (split_on 47 s)"
    by (simp add: split_on_not_Nil)
  with assms show ?thesis
    by (auto simp: kernel_components_def last_filter_keep split_on_not_Nil filter_empty_conv)
qed

subsection \<open>The characters and the length of a path string\<close>

lemma join_split_on: "join [c] (split_on c s) = s"
proof (induction s)
  case Nil
  show ?case by simp
next
  case (Cons x s)
  obtain y ys where ys: "split_on c s = y # ys"
    using split_on_not_Nil [of c s] by (cases "split_on c s") auto
  with Cons show ?case
    by (cases ys) auto
qed

lemma join_subset: "set (join sep ps) \<subseteq> set sep \<union> \<Union> (set ` set ps)"
  by (induction sep ps rule: join.induct) auto

lemma join_member: "y \<in> set ps \<Longrightarrow> x \<in> set y \<Longrightarrow> x \<in> set (join sep ps)"
  by (induction sep ps rule: join.induct) auto

lemma split_on_subset:
  assumes "x \<in> set (split_on c s)"
  shows "set x \<subseteq> set s"
proof
  fix y
  assume "y \<in> set x"
  with assms have "y \<in> set (join [c] (split_on c s))"
    by (rule join_member)
  then show "y \<in> set s"
    by (simp add: join_split_on)
qed

lemma fspath_Path_subset: "set (fspath (Path s)) \<subseteq> set s \<union> {46, 47}"
proof -
  have "set (join [47] (path_components s)) \<subseteq> set s \<union> {47}"
    using join_subset [of "[47]" "path_components s"] split_on_subset [of _ 47 s]
    by (fastforce simp: path_components_def)
  moreover have "set (root (Path s)) \<subseteq> {47}"
    using root_Path [of s] by auto
  ultimately show ?thesis
    using fspath_Path_cases [of s] by auto
qed

lemma split_on_member:
  assumes "x \<in> set s" "x \<noteq> c"
  shows "\<exists>y\<in>set (split_on c s). x \<in> set y"
proof -
  from assms(1) have "x \<in> set (join [c] (split_on c s))"
    by (simp add: join_split_on)
  with assms(2) show ?thesis
    using join_subset [of "[c]" "split_on c s"] by auto
qed

lemma fspath_Path_member:
  assumes "x \<in> set s" "x \<noteq> 46" "x \<noteq> 47"
  shows "x \<in> set (fspath (Path s))"
proof -
  from split_on_member [OF assms(1,3)] obtain y where
    y: "y \<in> set (split_on 47 s)" "x \<in> set y"
    by blast
  with assms(2) have "y \<in> set (path_components s)"
    by (auto simp: path_components_def)
  with y(2) have "x \<in> set (join [47] (path_components s))" "path_components s \<noteq> []"
    by (auto intro: join_member)
  then show ?thesis
    using fspath_Path_cases [of s] by auto
qed

lemma fspath_child_subset:
  "set (fspath (make_child (Path s) n)) \<subseteq> set (fspath (Path s)) \<union> {47} \<union> set n"
proof (cases "n = []")
  case True
  then show ?thesis
    using fspath_Path_cases [of s]
    by (auto simp: fspath_def make_child_def Let_def join_snoc split: if_splits)
next
  case False
  have "set (root (Path s)) \<subseteq> {47}"
    using root_Path [of s] by auto
  then show ?thesis
    using fspath_Path_cases [of s]
    by (auto simp: fspath_child [OF False] join_snoc)
qed

lemma fsencode_len_append [simp]: "fsencode_len (a @ b) = fsencode_len a + fsencode_len b"
  by (simp add: fsencode_len_def)

lemma fsencode_len_Cons: "fsencode_len (x # xs) = utf8_len x + fsencode_len xs"
  by (simp add: fsencode_len_def)

lemma fsencode_len_Nil [simp]: "fsencode_len [] = 0"
  by (simp add: fsencode_len_def)

lemma utf8_len_pos: "0 < utf8_len c"
  by (simp add: utf8_len_def)

lemma fsencode_len_pos: "s \<noteq> [] \<Longrightarrow> 0 < fsencode_len s"
  using utf8_len_pos by (cases s) (simp_all add: fsencode_len_Cons)

lemma fsencode_len_join_Cons:
  "fsencode_len (join [47] (x # xs)) \<le> fsencode_len x + 1 + fsencode_len (join [47] xs)"
  "xs \<noteq> [] \<Longrightarrow>
     fsencode_len (join [47] (x # xs)) = fsencode_len x + 1 + fsencode_len (join [47] xs)"
  by (cases xs; simp add: fsencode_len_Cons utf8_len_def)+

lemma fsencode_len_join_filter:
  "fsencode_len (join [47] (filter P xs)) \<le> fsencode_len (join [47] xs)"
proof (induction xs)
  case Nil
  show ?case by simp
next
  case (Cons x xs)
  show ?case
  proof (cases "xs = []")
    case True
    then show ?thesis by simp
  next
    case False
    have whole: "fsencode_len (join [47] (x # xs))
        = fsencode_len x + 1 + fsencode_len (join [47] xs)"
      using False by (rule fsencode_len_join_Cons(2))
    show ?thesis
    proof (cases "P x")
      case True
      have "fsencode_len (join [47] (x # filter P xs))
          \<le> fsencode_len x + 1 + fsencode_len (join [47] (filter P xs))"
        by (rule fsencode_len_join_Cons(1))
      also have "\<dots> \<le> fsencode_len x + 1 + fsencode_len (join [47] xs)"
        using Cons.IH by simp
      finally show ?thesis
        using True whole by simp
    next
      case False
      with Cons.IH whole show ?thesis
        by simp
    qed
  qed
qed

lemma fsencode_len_components:
  "fsencode_len (join [47] (path_components s)) \<le> fsencode_len s"
  using fsencode_len_join_filter [of "\<lambda>c. c \<noteq> [] \<and> c \<noteq> [46]" "split_on 47 s"]
  by (simp add: path_components_def join_split_on)

lemma fsencode_len_rooted:
  "fsencode_len (root (Path s) @ join [47] (path_components s)) \<le> fsencode_len s"
proof (cases "take 1 s = [47]")
  case False
  then have "root (Path s) = []"
    by (simp add: Path_def)
  then show ?thesis
    by (simp add: fsencode_len_components)
next
  case True
  then obtain t where t: "s = 47 # t"
    by (cases s) auto
  have one: "fsencode_len s = 1 + fsencode_len t" "path_components s = path_components t"
    by (simp_all add: t fsencode_len_Cons utf8_len_def)
  show ?thesis
  proof (cases "root (Path s) = [47, 47]")
    case False
    with root_Path [of s] have "fsencode_len (root (Path s)) \<le> 1"
      by (auto simp: fsencode_len_Cons utf8_len_def)
    with fsencode_len_components [of t] one show ?thesis
      by simp
  next
    case True
    then obtain u where u: "t = 47 # u"
      by (cases t) (auto simp: Path_def t split: if_splits)
    have two: "fsencode_len t = 1 + fsencode_len u" "path_components t = path_components u"
      by (simp_all add: u fsencode_len_Cons utf8_len_def)
    have "fsencode_len (root (Path s)) = 2"
      using True by (simp add: fsencode_len_Cons utf8_len_def)
    with fsencode_len_components [of u] one two show ?thesis
      by simp
  qed
qed

lemma fsencode_len_fspath_Path:
  assumes "s \<noteq> []"
  shows "fsencode_len (fspath (Path s)) \<le> fsencode_len s"
proof -
  have "fsencode_len [46] \<le> fsencode_len s"
    using fsencode_len_pos [OF assms] by (simp add: fsencode_len_Cons utf8_len_def)
  with fsencode_len_rooted [of s] show ?thesis
    using fspath_Path_cases [of s] by auto
qed

section \<open>The file system\<close>

lemma update_append_new:
  "map_of es c = None \<Longrightarrow> AList.update c n es = es @ [(c, n)]"
  by (induction es) (auto split: if_splits)

lemma map_of_append_new:
  "map_of es c = None \<Longrightarrow> map_of (es @ [(c, n)]) c = Some n"
  by (simp add: map_add_def)

lemma map_of_append_old:
  "map_of es y = Some m \<Longrightarrow> map_of (es @ [(c, n)]) y = Some m"
  by (simp add: map_add_def)

lemma fs_write_Nil: "fs_write m [] b = Inr m' \<Longrightarrow> m' = File b"
  by (cases m) auto

lemma fs_write_Nil_iff: "(\<exists>m'. fs_write m [] b = Inr m') \<longleftrightarrow> (\<forall>ds. m \<noteq> Dir ds)"
  by (cases m) auto

lemma fs_write_lookup:
  "fs_write n t b = Inr n' \<Longrightarrow> fs_lookup n' t = Inr (File b)"
proof (induction n t b arbitrary: n' rule: fs_write.induct)
  case (4 es c cs b)
  show ?case
  proof (cases "map_of es c")
    case None
    with "4.prems" show ?thesis
      by (auto simp: map_of_append_new simp del: map_of_append split: if_splits)
  next
    case (Some m)
    with "4.prems" obtain m' where m': "fs_write m cs b = Inr m'" "n' = Dir (AList.update c m' es)"
      by (auto split: sum.splits)
    with "4.IH" [OF Some m'(1)] show ?thesis
      by (simp add: update_conv')
  qed
qed simp_all

lemma fs_write_listing:
  assumes "fs_lookup n d = Inr (Dir es)" "fs_write n (d @ [c]) b = Inr n'"
  shows "fs_lookup n' d = Inr (Dir (AList.update c (File b) es))"
  using assms
proof (induction d arbitrary: n n')
  case Nil
  then show ?case
    by (auto simp: update_append_new dest: fs_write_Nil split: option.splits sum.splits)
next
  case (Cons x d)
  from Cons.prems(1) obtain xs m where n: "n = Dir xs" "map_of xs x = Some m"
    "fs_lookup m d = Inr (Dir es)"
    by (cases n) (auto split: option.splits)
  with Cons.prems(2) obtain m' where m': "fs_write m (d @ [c]) b = Inr m'"
    "n' = Dir (AList.update x m' xs)"
    by (auto split: sum.splits)
  with Cons.IH [OF n(3) m'(1)] show ?case
    by (simp add: update_conv')
qed

lemma fs_write_other:
  assumes "fs_lookup n q = Inr (File x)" "fs_write n t b = Inr n'" "q \<noteq> t"
  shows "fs_lookup n' q = Inr (File x)"
  using assms
proof (induction n t b arbitrary: n' q rule: fs_write.induct)
  case (1 old b)
  then show ?case by (cases q) auto
next
  case (2 es b)
  then show ?case by simp
next
  case (3 old c cs b)
  then show ?case by simp
next
  case (4 es c cs b)
  from "4.prems"(1,3) obtain y ys m where q: "q = y # ys" "map_of es y = Some m"
    "fs_lookup m ys = Inr (File x)"
    by (cases q) (auto split: option.splits)
  show ?case
  proof (cases "map_of es c")
    case None
    with "4.prems"(2) have n': "n' = Dir (es @ [(c, File b)])" "cs = []"
      by (auto split: if_splits)
    with q None show ?thesis
      by (simp add: map_of_append_old del: map_of_append)
  next
    case (Some k)
    with "4.prems"(2) obtain k' where k': "fs_write k cs b = Inr k'"
      "n' = Dir (AList.update c k' es)"
      by (auto split: sum.splits)
    show ?thesis
    proof (cases "y = c")
      case True
      with q Some "4.prems"(3) have "fs_lookup k ys = Inr (File x)" "ys \<noteq> cs"
        by auto
      from "4.IH" [OF Some this(1) k'(1) this(2)] True q k' show ?thesis
        by (simp add: update_conv')
    next
      case False
      with q k' show ?thesis
        by (simp add: update_conv')
    qed
  qed
qed

lemma fs_write_again:
  "fs_write n t b = Inr n' \<Longrightarrow> fs_write n' t b = Inr n'"
proof (induction n t b arbitrary: n' rule: fs_write.induct)
  case (4 es c cs b)
  show ?case
  proof (cases "map_of es c")
    case None
    with "4.prems" have n': "n' = Dir (es @ [(c, File b)])" "cs = []"
      by (auto split: if_splits)
    have "AList.update c (File b) (es @ [(c, File b)]) = es @ [(c, File b)]"
      using None by (intro update_triv) (simp add: map_of_append_new del: map_of_append)
    with n' None show ?thesis
      by (simp add: map_of_append_new del: map_of_append)
  next
    case (Some k)
    with "4.prems" obtain k' where k': "fs_write k cs b = Inr k'"
      "n' = Dir (AList.update c k' es)"
      by (auto split: sum.splits)
    have "AList.update c k' (AList.update c k' es) = AList.update c k' es"
      by (intro update_triv) (simp add: update_conv')
    with "4.IH" [OF Some k'(1)] k' show ?thesis
      by (simp add: update_conv')
  qed
qed auto

lemma fs_write_succeeds:
  assumes "fs_lookup n d = Inr (Dir es)" "\<forall>ds. map_of es c \<noteq> Some (Dir ds)"
  shows "\<exists>n'. fs_write n (d @ [c]) b = Inr n'"
  using assms
proof (induction d arbitrary: n)
  case Nil
  show ?case
  proof (cases "map_of es c")
    case None
    with Nil show ?thesis by auto
  next
    case (Some m)
    with Nil.prems(2) have "\<forall>ds. m \<noteq> Dir ds"
      by simp
    then obtain m' where "fs_write m [] b = Inr m'"
      using fs_write_Nil_iff [of m b] by blast
    with Nil.prems(1) Some show ?thesis
      by auto
  qed
next
  case (Cons x d)
  from Cons.prems(1) obtain xs m where n: "n = Dir xs" "map_of xs x = Some m"
    "fs_lookup m d = Inr (Dir es)"
    by (cases n) (auto split: option.splits)
  from Cons.IH [OF n(3) Cons.prems(2)] n show ?case
    by auto
qed


lemma fs_lookup_snoc:
  "fs_lookup n d = Inr (Dir es) \<Longrightarrow>
     fs_lookup n (d @ [c]) = (case map_of es c of None \<Rightarrow> Inl ENOENT | Some m \<Rightarrow> Inr m)"
proof (induction d arbitrary: n)
  case Nil
  then show ?case by (auto split: option.splits)
next
  case (Cons x d)
  then show ?case
    by (cases n) (auto split: option.splits)
qed

lemma fs_lookup_no_EISDIR: "fs_lookup n cs \<noteq> Inl EISDIR"
  by (induction n cs rule: fs_lookup.induct) (auto split: option.splits)

lemma fs_write_dir_stays:
  "fs_write n t b = Inr n' \<Longrightarrow> fs_lookup n q = Inr (Dir ds) \<Longrightarrow>
     \<exists>ds'. fs_lookup n' q = Inr (Dir ds')"
proof (induction n t b arbitrary: n' q ds rule: fs_write.induct)
  case (1 old b)
  then show ?case by (cases q) auto
next
  case (2 es b)
  then show ?case by simp
next
  case (3 old c cs b)
  then show ?case by simp
next
  case (4 es c cs b)
  show ?case
  proof (cases q)
    case Nil
    with "4.prems"(1) show ?thesis
      by (auto split: option.splits sum.splits if_splits)
  next
    case (Cons y ys)
    with "4.prems"(2) obtain m where m: "map_of es y = Some m" "fs_lookup m ys = Inr (Dir ds)"
      by (auto split: option.splits)
    show ?thesis
    proof (cases "map_of es c")
      case None
      with "4.prems"(1) have n': "n' = Dir (es @ [(c, File b)])"
        by (auto split: if_splits)
      with Cons m show ?thesis
        by (simp add: map_of_append_old del: map_of_append)
    next
      case (Some k)
      with "4.prems"(1) obtain k' where k': "fs_write k cs b = Inr k'"
        "n' = Dir (AList.update c k' es)"
        by (auto split: sum.splits)
      show ?thesis
      proof (cases "y = c")
        case True
        with m Some have "fs_lookup k ys = Inr (Dir ds)"
          by simp
        from "4.IH" [OF Some k'(1) this] True Cons k' show ?thesis
          by (simp add: update_conv')
      next
        case False
        with Cons m k' show ?thesis
          by (simp add: update_conv')
      qed
    qed
  qed
qed

section \<open>Walking a path\<close>

lemma walk_append:
  "walk tree cur (xs @ ys) =
     (case walk tree cur xs of Inl e \<Rightarrow> Inl e | Inr c \<Rightarrow> walk tree c ys)"
  by (induction xs arbitrary: cur) (auto split: sum.splits node.splits)

lemma walk_output:
  assumes "fs_lookup tree cur = Inr (Dir es)"
  shows "walk tree cur [lit ''converted_images.json''] = Inr (cur @ [lit ''converted_images.json''])"
  using assms by (simp add: lit_def NAME_MAX_def fsencode_len_def utf8_len_def)

lemma walk_last:
  assumes "walk tree cur (xs @ [c]) = Inr r" "c \<noteq> [46]" "c \<noteq> [46, 46]"
  shows "r \<noteq> [] \<and> last r = c"
  using assms by (auto simp: walk_append split: sum.splits node.splits if_splits)

lemma walk_stable:
  assumes "fs_write tree t b = Inr tree'"
  shows "walk tree cur cs = Inr r \<Longrightarrow> walk tree' cur cs = Inr r"
proof (induction cs arbitrary: cur)
  case Nil
  then show ?case by simp
next
  case (Cons c cs)
  from Cons.prems obtain ds where ds: "fs_lookup tree cur = Inr (Dir ds)"
    by (auto split: sum.splits node.splits)
  from fs_write_dir_stays [OF assms this] obtain ds' where
    ds': "fs_lookup tree' cur = Inr (Dir ds')"
    by blast
  from Cons.prems ds ds' Cons.IH show ?case
    by (auto split: if_splits)
qed

lemma reach_Nil [simp]: "reach tree cur [] = fs_lookup tree cur"
  by (simp add: reach_def)

lemma reach_Cons:
  "reach tree cur (c # cs) =
     (case fs_lookup tree cur of
        Inl e \<Rightarrow> Inl e
      | Inr (File b) \<Rightarrow> Inl ENOTDIR
      | Inr (Dir es) \<Rightarrow>
          if c = [46] then reach tree cur cs
          else if c = [46, 46] then reach tree (butlast cur) cs
          else if NAME_MAX < fsencode_len c then Inl ENAMETOOLONG
          else reach tree (cur @ [c]) cs)"
  by (simp add: reach_def split: sum.splits node.splits)

lemma reach_fails: "fs_lookup tree cur = Inl e \<Longrightarrow> reach tree cur cs = Inl e"
  by (cases cs) (simp_all add: reach_Cons)

lemma reach_file:
  "fs_lookup tree cur = Inr (File b) \<Longrightarrow> cs \<noteq> [] \<Longrightarrow> reach tree cur cs = Inl ENOTDIR"
  by (cases cs) (simp_all add: reach_Cons)

lemma reach_no_EISDIR: "reach tree cur cs \<noteq> Inl EISDIR"
proof (induction cs arbitrary: cur)
  case Nil
  show ?case by (simp add: fs_lookup_no_EISDIR)
next
  case (Cons c cs)
  then show ?case
    using fs_lookup_no_EISDIR [of tree cur]
    by (auto simp: reach_Cons split: sum.splits node.splits)
qed

text \<open>
  Leaving the \<open>.\<close> components out of a walk changes its end in one case only: the walk
  reaches a regular file and only \<open>.\<close> components are left.
\<close>

lemma reach_dots:
  "reach tree cur (filter (\<lambda>c. c \<noteq> [46]) cs) = reach tree cur cs
   \<or> (reach tree cur cs = Inl ENOTDIR
      \<and> (\<exists>b. reach tree cur (filter (\<lambda>c. c \<noteq> [46]) cs) = Inr (File b))
      \<and> cs \<noteq> [] \<and> last cs = [46])"
proof (induction cs arbitrary: cur)
  case Nil
  show ?case by simp
next
  case (Cons c cs)
  let ?f = "filter (\<lambda>c. c \<noteq> [46])"
  show ?case
  proof (cases "fs_lookup tree cur")
    case (Inl e)
    then show ?thesis
      by (simp add: reach_fails)
  next
    case (Inr n)
    show ?thesis
    proof (cases n)
      case (File b)
      with Inr have regular: "fs_lookup tree cur = Inr (File b)"
        by simp
      show ?thesis
      proof (cases "?f (c # cs) = []")
        case True
        then have "\<forall>x\<in>set (c # cs). x = [46]"
          by (simp only: filter_empty_conv) simp
        moreover have "last (c # cs) \<in> set (c # cs)"
          by (rule last_in_set) simp
        ultimately have "last (c # cs) = [46]"
          by blast
        with True regular show ?thesis
          by (simp add: reach_file)
      next
        case False
        with regular show ?thesis
          by (simp add: reach_file)
      qed
    next
      case (Dir es)
      with Inr have dir: "fs_lookup tree cur = Inr (Dir es)"
        by simp
      show ?thesis
      proof (cases "c = [46]")
        case True
        with dir Cons.IH [of cur] show ?thesis
          by (auto simp: reach_Cons)
      next
        case False
        with dir Cons.IH [of "butlast cur"] Cons.IH [of "cur @ [c]"] show ?thesis
          by (auto simp: reach_Cons)
      qed
    qed
  qed
qed

section \<open>System calls on path strings\<close>

lemma resolve_admissible:
  "admissible p \<Longrightarrow>
     resolve tree p =
       (case walk tree [] (kernel_components p) of Inl e \<Rightarrow> Inl (Errno e) | Inr cur \<Rightarrow> Inr cur)"
  by (simp add: resolve_def admissible_def)

lemma resolve_Inr:
  "resolve tree p = Inr r \<Longrightarrow> admissible p \<and> walk tree [] (kernel_components p) = Inr r"
  by (auto simp: resolve_def admissible_def split: if_splits sum.splits)

lemma resolve_stable:
  assumes "fs_write tree t b = Inr tree'" "resolve tree p = Inr r"
  shows "resolve tree' p = Inr r"
  using resolve_Inr [OF assms(2)] walk_stable [OF assms(1)]
  by (simp add: resolve_admissible)

lemma fs_stat_reach:
  "admissible p \<Longrightarrow>
     fs_stat tree p =
       (case reach tree [] (kernel_components p) of
          Inl e \<Rightarrow> Inl (Errno e)
        | Inr (Dir es) \<Rightarrow> Inr (Dir es)
        | Inr (File b) \<Rightarrow> if last p = 47 then Inl (Errno ENOTDIR) else Inr (File b))"
  by (simp add: fs_stat_def resolve_admissible reach_def split: sum.splits)

lemma fs_stat_not_admissible:
  "\<not> admissible p \<Longrightarrow>
     fs_stat tree p =
       (if \<not> fsencodable p then Inl NotEncodable
        else if 0 \<in> set p then Inl NullByte
        else if p = [] then Inl (Errno ENOENT)
        else Inl (Errno ENAMETOOLONG))"
  by (auto simp: fs_stat_def resolve_def admissible_def)

lemma fs_stat_Inr:
  "fs_stat tree p = Inr n \<Longrightarrow> \<exists>r. resolve tree p = Inr r \<and> fs_lookup tree r = Inr n"
  by (auto simp: fs_stat_def split: sum.splits node.splits if_splits)

lemma fs_stat_dir:
  "resolve tree p = Inr r \<Longrightarrow> fs_lookup tree r = Inr (Dir es) \<Longrightarrow> fs_stat tree p = Inr (Dir es)"
  by (simp add: fs_stat_def)

lemma fspath_not_Nil [simp]: "fspath p \<noteq> []"
  by (simp add: fspath_def Let_def)

lemma fsencodable_subset:
  assumes "fsencodable p" "set q \<subseteq> set p \<union> {46, 47}"
  shows "fsencodable q"
  using assms unfolding fsencodable_def list_all_iff by fastforce

lemma admissible_fspath_Path:
  assumes "admissible p"
  shows "admissible (fspath (Path p))"
proof -
  from assms have p: "fsencodable p" "0 \<notin> set p" "p \<noteq> []" "fsencode_len p < PATH_MAX"
    by (simp_all add: admissible_def)
  have "fsencodable (fspath (Path p))"
    using p(1) fspath_Path_subset by (rule fsencodable_subset)
  moreover have "0 \<notin> set (fspath (Path p))"
    using p(2) fspath_Path_subset [of p] by auto
  moreover have "fsencode_len (fspath (Path p)) < PATH_MAX"
    using fsencode_len_fspath_Path [OF p(3)] p(4) by simp
  ultimately show ?thesis
    by (simp add: admissible_def)
qed

lemma admissible_output:
  assumes "admissible (fspath (Path s))"
    and "fsencode_len (fspath (make_child (Path s) (lit ''converted_images.json''))) < PATH_MAX"
  shows "admissible (fspath (make_child (Path s) (lit ''converted_images.json'')))"
proof -
  let ?out = "fspath (make_child (Path s) (lit ''converted_images.json''))"
  have sub: "set ?out \<subseteq> set (fspath (Path s)) \<union> {47} \<union> set (lit ''converted_images.json'')"
    by (rule fspath_child_subset)
  have name: "\<forall>c\<in>set (lit ''converted_images.json''). 0 < c \<and> c < 128"
    by (simp add: lit_def)
  from assms(1) have p: "fsencodable (fspath (Path s))" "0 \<notin> set (fspath (Path s))"
    by (simp_all add: admissible_def)
  have "fsencodable ?out"
    unfolding fsencodable_def list_all_iff
  proof
    fix c
    assume "c \<in> set ?out"
    with sub have "c \<in> set (fspath (Path s)) \<or> c = 47 \<or> c \<in> set (lit ''converted_images.json'')"
      by auto
    with p(1) name show "c < 55296 \<or> 57343 < c \<or> 56448 \<le> c \<and> c \<le> 56575"
      unfolding fsencodable_def list_all_iff by fastforce
  qed
  moreover have "0 \<notin> set ?out"
    using sub p(2) name by fastforce
  ultimately show ?thesis
    using assms(2) by (simp add: admissible_def)
qed

lemma folder_walk:
  assumes "fs_stat tree (fspath (Path s)) = Inr (Dir es)"
  shows "\<exists>cur. walk tree [] (path_components s) = Inr cur \<and> fs_lookup tree cur = Inr (Dir es)
           \<and> resolve tree (fspath (Path s)) = Inr cur"
proof -
  from fs_stat_Inr [OF assms] obtain cur where
    cur: "resolve tree (fspath (Path s)) = Inr cur" "fs_lookup tree cur = Inr (Dir es)"
    by blast
  from resolve_Inr [OF cur(1)] have
    w: "walk tree [] (kernel_components (fspath (Path s))) = Inr cur"
    by simp
  have "walk tree [] (path_components s) = Inr cur"
  proof (cases "root (Path s) = [] \<and> path_components s = []")
    case True
    with w have "walk tree [] [[46]] = Inr cur"
      by (simp add: kernel_components_fspath_Path)
    then have "cur = []"
      by (auto split: sum.splits node.splits)
    with True show ?thesis
      by simp
  next
    case False
    with w show ?thesis
      by (simp add: kernel_components_fspath_Path)
  qed
  with cur show ?thesis
    by blast
qed

lemma walk_child:
  assumes "walk tree [] (path_components s) = Inr cur" "n \<noteq> []"
  shows "walk tree [] (kernel_components (fspath (make_child (Path s) n)))
           = walk tree cur (kernel_components n)"
  using assms by (simp add: kernel_components_fspath_child walk_append)

lemma fspath_output:
  "fspath (make_child p (lit ''converted_images.json'')) \<noteq> []"
  "last (fspath (make_child p (lit ''converted_images.json''))) \<noteq> 47"
  using fspath_child_last [of "lit ''converted_images.json''" p]
  by (simp_all add: lit_def)

lemma resolve_output:
  assumes "walk tree [] (path_components s) = Inr cur" "fs_lookup tree cur = Inr (Dir es)"
    and "admissible (fspath (make_child (Path s) (lit ''converted_images.json'')))"
  shows "resolve tree (fspath (make_child (Path s) (lit ''converted_images.json'')))
           = Inr (cur @ [lit ''converted_images.json''])"
  using assms walk_output [OF assms(2)]
  by (simp add: resolve_admissible kernel_components_output walk_append del: walk.simps)

lemma fs_stat_output:
  assumes "walk tree [] (path_components s) = Inr cur" "fs_lookup tree cur = Inr (Dir es)"
    and "admissible (fspath (make_child (Path s) (lit ''converted_images.json'')))"
  shows "fs_stat tree (fspath (make_child (Path s) (lit ''converted_images.json'')))
           = (case map_of es (lit ''converted_images.json'') of
                None \<Rightarrow> Inl (Errno ENOENT)
              | Some n \<Rightarrow> Inr n)"
  using resolve_output [OF assms] fs_lookup_snoc [OF assms(2)]
  by (simp add: fs_stat_def fspath_output split: option.splits node.splits)

lemma fs_create_output:
  assumes "walk tree [] (path_components s) = Inr cur" "fs_lookup tree cur = Inr (Dir es)"
    and "admissible (fspath (make_child (Path s) (lit ''converted_images.json'')))"
  shows "fs_create tree (fspath (make_child (Path s) (lit ''converted_images.json''))) b
           = (case fs_write tree (cur @ [lit ''converted_images.json'']) b of
                Inl e \<Rightarrow> Inl (Errno e)
              | Inr n \<Rightarrow> Inr n)"
proof -
  have name: "lit ''converted_images.json'' \<noteq> [46]" "lit ''converted_images.json'' \<noteq> [46, 46]"
    "\<not> NAME_MAX < fsencode_len (lit ''converted_images.json'')"
    by (simp_all add: lit_def NAME_MAX_def fsencode_len_def utf8_len_def)
  from assms name show ?thesis
    by (simp add: fs_create_def admissible_def kernel_components_output fspath_output)
qed

lemma fs_create_admissible: "fs_create tree p b = Inr n \<Longrightarrow> admissible p"
  by (auto simp: fs_create_def admissible_def split: if_splits)

lemma fs_read_written:
  assumes "walk tree [] (path_components s) = Inr cur" "fs_lookup tree cur = Inr (Dir es)"
    and "fs_create tree (fspath (make_child (Path s) (lit ''converted_images.json''))) b = Inr tree'"
  shows "fs_read tree' (fspath (make_child (Path s) (lit ''converted_images.json''))) = Inr b"
proof -
  let ?out = "fspath (make_child (Path s) (lit ''converted_images.json''))"
  let ?t = "cur @ [lit ''converted_images.json'']"
  have adm: "admissible ?out"
    using assms(3) by (rule fs_create_admissible)
  from assms(3) have wr: "fs_write tree ?t b = Inr tree'"
    by (simp add: fs_create_output [OF assms(1,2) adm] split: sum.splits)
  from resolve_stable [OF wr resolve_output [OF assms(1,2) adm]]
  have "resolve tree' ?out = Inr ?t" .
  with fs_write_lookup [OF wr] show ?thesis
    by (simp add: fs_read_def fs_stat_def fspath_output)
qed

lemma fs_read_other:
  assumes "fs_read tree p = Inr b" "fs_write tree t x = Inr tree'" "resolve tree p \<noteq> Inr t"
  shows "fs_read tree' p = Inr b"
proof -
  from assms(1) have stat: "fs_stat tree p = Inr (File b)"
    by (auto simp: fs_read_def split: sum.splits node.splits)
  from fs_stat_Inr [OF this] obtain r where
    r: "resolve tree p = Inr r" "fs_lookup tree r = Inr (File b)"
    by blast
  from stat r have slash: "last p \<noteq> 47"
    by (auto simp: fs_stat_def split: if_splits)
  from r(1) assms(3) have "r \<noteq> t"
    by simp
  from fs_write_other [OF r(2) assms(2) this] resolve_stable [OF assms(2) r(1)] slash
  show ?thesis
    by (simp add: fs_read_def fs_stat_def)
qed

lemma child_not_output:
  assumes "lower (suffix_of_name n) \<in> set extensions"
    and "walk tree [] (path_components s) = Inr cur"
  shows "resolve tree (fspath (make_child (Path s) n)) \<noteq> Inr (cur @ [lit ''converted_images.json''])"
proof
  assume eq: "resolve tree (fspath (make_child (Path s) n)) = Inr (cur @ [lit ''converted_images.json''])"
  have n: "n \<noteq> []" "last n \<in> {70, 71, 80, 102, 103, 112}"
    using supported_last [OF assms(1)] by simp_all
  then have "last n \<noteq> 47"
    by auto
  from last_split_on [OF n(1) this]
  have seg: "last (split_on 47 n) \<noteq> []" "last (last (split_on 47 n)) = last n"
    by simp_all
  from last_kernel_components [OF seg(1)] have
    k: "kernel_components n \<noteq> []" "last (kernel_components n) = last (split_on 47 n)"
    by simp_all
  have dots: "last (kernel_components n) \<noteq> [46]" "last (kernel_components n) \<noteq> [46, 46]"
    using k(2) seg(2) n(2) by auto
  from resolve_Inr [OF eq] walk_child [OF assms(2) n(1)]
  have "walk tree cur (kernel_components n) = Inr (cur @ [lit ''converted_images.json''])"
    by simp
  then have "walk tree cur (butlast (kernel_components n) @ [last (kernel_components n)])
      = Inr (cur @ [lit ''converted_images.json''])"
    using k(1) by simp
  from walk_last [OF this dots] have "last (kernel_components n) = lit ''converted_images.json''"
    by simp
  with k(2) seg(2) have "last n = last (lit ''converted_images.json'')"
    by simp
  with n(2) show False
    by (simp add: lit_def)
qed

text \<open>
  What \<open>os.stat\<close> finds missing is missing for the path object too, whose string leaves
  out the \<open>.\<close> components and the slashes that do not separate two names.
\<close>

lemma last_fspath_Path:
  assumes "path_components s \<noteq> []"
  shows "last (fspath (Path s)) \<noteq> 47"
proof -
  from assms obtain ps x where ps: "path_components s = ps @ [x]"
    by (cases "path_components s" rule: rev_cases) auto
  then have "clean x"
    using path_components_clean [of x s] by simp
  then have x: "x \<noteq> []" "47 \<notin> set x"
    by (simp_all add: clean_def)
  then have "x \<noteq> []" "last x \<noteq> 47"
    by (metis last_in_set)+
  with ps show ?thesis
    using fspath_Path_cases [of s] by (auto simp: join_snoc)
qed

lemma stat_missing_normal:
  assumes "fs_stat tree p = Inl f" "f \<noteq> Errno ENAMETOOLONG" "p \<noteq> []"
    and "f = Errno ENOTDIR \<longrightarrow> last (split_on 47 p) \<noteq> [] \<and> last (split_on 47 p) \<noteq> [46]"
  shows "\<exists>g. fs_stat tree (fspath (Path p)) = Inl g \<and> ignored g"
proof (cases "admissible p")
  case False
  show ?thesis
  proof (cases "fsencodable p")
    case False
    then obtain c where c: "c \<in> set p" "\<not> (c < 55296 \<or> 57343 < c \<or> (56448 \<le> c \<and> c \<le> 56575))"
      unfolding fsencodable_def list_all_iff by blast
    then have "c \<noteq> 46" "c \<noteq> 47"
      by auto
    from fspath_Path_member [OF c(1) this] c(2) have "\<not> fsencodable (fspath (Path p))"
      unfolding fsencodable_def list_all_iff by blast
    then show ?thesis
      by (simp add: fs_stat_def resolve_def ignored_def)
  next
    case True
    with False assms(1,2,3) have zero: "(0::nat) \<in> set p"
      by (auto simp: fs_stat_not_admissible admissible_def split: if_splits)
    have "(0::nat) \<noteq> 46" "(0::nat) \<noteq> 47"
      by simp_all
    from fspath_Path_member [OF zero this] have "0 \<in> set (fspath (Path p))" .
    then show ?thesis
      by (simp add: fs_stat_def resolve_def ignored_def)
  qed
next
  case True
  let ?q = "fspath (Path p)"
  have adm: "admissible ?q"
    using True by (rule admissible_fspath_Path)
  let ?raw = "reach tree [] (kernel_components p)"
  let ?norm = "reach tree [] (path_components p)"
  have slash: "last p \<noteq> 47" if "f = Errno ENOTDIR"
    using that assms(4) last_segment_not_Nil [of 47 p] by simp
  from assms(1) slash obtain e where e: "?raw = Inl e" "f = Errno e"
    by (auto simp: fs_stat_reach [OF True] split: sum.splits node.splits if_splits)
  have "e \<noteq> EISDIR"
    using e(1) reach_no_EISDIR [of tree "[]" "kernel_components p"] by auto
  with assms(2) e(2) have cases: "e = ENOENT \<or> e = ENOTDIR"
    by (cases e) auto
  have "\<not> (kernel_components p \<noteq> [] \<and> last (kernel_components p) = [46])" if "e = ENOTDIR"
    using that assms(4) e(2) last_kernel_components [of p] by auto
  with reach_dots [of tree "[]" "kernel_components p"] e(1) cases
  have norm: "?norm = Inl e"
    by (auto simp: path_components_kernel)
  then have parts: "path_components p \<noteq> []"
    by auto
  then have "reach tree [] (kernel_components ?q) = Inl e"
    using norm by (simp add: kernel_components_fspath_Path)
  then have "fs_stat tree ?q = Inl (Errno e)"
    by (simp add: fs_stat_reach [OF adm])
  with cases show ?thesis
    by (auto simp: ignored_def)
qed

text \<open>
  And what \<open>os.stat\<close> finds to be a regular file is one for the path object too.
\<close>

lemma stat_file_normal:
  assumes "fs_stat tree p = Inr (File b)"
  shows "fs_stat tree (fspath (Path p)) = Inr (File b)"
proof -
  have adm: "admissible p"
    using assms by (cases "admissible p") (auto simp: fs_stat_not_admissible split: if_splits)
  then have p: "p \<noteq> []"
    by (simp add: admissible_def)
  from assms have raw: "reach tree [] (kernel_components p) = Inr (File b)" "last p \<noteq> 47"
    by (auto simp: fs_stat_reach [OF adm] split: sum.splits node.splits if_splits)
  from last_split_on [OF p raw(2)] last_kernel_components [of p]
  have comps: "kernel_components p \<noteq> []"
    by simp
  from reach_dots [of tree "[]" "kernel_components p"] raw(1)
  have norm: "reach tree [] (path_components p) = Inr (File b)"
    by (auto simp: path_components_kernel)
  have parts: "path_components p \<noteq> []"
  proof
    assume "path_components p = []"
    with norm have "fs_lookup tree [] = Inr (File b)"
      by simp
    from reach_file [OF this comps] raw(1) show False
      by simp
  qed
  then have "reach tree [] (kernel_components (fspath (Path p))) = Inr (File b)"
    using norm by (simp add: kernel_components_fspath_Path)
  with last_fspath_Path [OF parts] show ?thesis
    by (simp add: fs_stat_reach [OF admissible_fspath_Path [OF adm]])
qed

section \<open>The loops\<close>

lemma image_to_data_uri_eq:
  "image_to_data_uri p w =
     (case fs_read (fs w) p of
        Inl e \<Rightarrow> (Inl e, w)
      | Inr b \<Rightarrow> (Inr (data_uri_of p b), w\<lparr>reads := reads w @ [p]\<rparr>))"
  by (simp add: image_to_data_uri_def read_bytes_def data_uri_of_def split: sum.splits)

lemma encodable_console: "console v = console w \<Longrightarrow> encodable v s = encodable w s"
  by (simp add: encodable_def)

lemma encodable_append [simp]: "encodable w (a @ b) \<longleftrightarrow> encodable w a \<and> encodable w b"
  by (simp add: encodable_def)

lemma encodable_Cons [simp]:
  "encodable w (c # s) \<longleftrightarrow> (c < 128 \<or> console w c) \<and> encodable w s"
  by (simp add: encodable_def)

lemma encodable_Nil [simp]: "encodable w []"
  by (simp add: encodable_def)

lemma print_ok: "encodable w s \<Longrightarrow> print s w = (Inr (), w\<lparr>stdout := stdout w @ [s]\<rparr>)"
  by (simp add: print_def)

lemma print_lines_eq:
  "print_lines ls w =
     (if \<forall>l\<in>set ls. encodable w l then (Inr (), w\<lparr>stdout := stdout w @ ls\<rparr>)
      else (Inl (UnicodeEncodeError (hd (filter (\<lambda>l. \<not> encodable w l) ls))),
            w\<lparr>stdout := stdout w @ takeWhile (encodable w) ls\<rparr>))"
proof (induction ls arbitrary: w)
  case Nil
  show ?case by simp
next
  case (Cons l ls)
  have same: "encodable (w\<lparr>stdout := stdout w @ [l]\<rparr>) = encodable w"
    by (simp add: encodable_def fun_eq_iff)
  show ?case
    by (simp add: print_def Cons same)
qed

lemma convert_loop_skip:
  "lower (path_suffix c) \<notin> set extensions \<Longrightarrow>
     convert_loop (c # cs) rs w = convert_loop cs rs w"
  by simp

lemma convert_loop_supported:
  assumes "lower (path_suffix c) \<in> set extensions"
  shows "convert_loop (c # cs) rs w =
           (if \<not> encodable w (lit ''Converting: '' @ path_name c)
            then (Inl (UnicodeEncodeError (lit ''Converting: '' @ path_name c)), w)
            else case fs_read (fs w) (fspath c) of
                   Inl e \<Rightarrow> (Inl e, w\<lparr>stdout := stdout w @ [lit ''Converting: '' @ path_name c]\<rparr>)
                 | Inr b \<Rightarrow>
                     convert_loop cs (AList.update (path_name c) (data_uri_of (fspath c) b) rs)
                       (w\<lparr>stdout := stdout w @ [lit ''Converting: '' @ path_name c],
                          reads := reads w @ [fspath c]\<rparr>))"
  using assms by (simp add: image_to_data_uri_eq print_def split: sum.splits)

lemmas convert_loop_Cons = convert_loop.simps(2)

declare convert_loop.simps(2) [simp del]

lemma convert_loop_ok:
  assumes "convert_loop (c # cs) rs w = (Inr rs', w')"
    and "lower (path_suffix c) \<in> set extensions"
  obtains b where
    "encodable w (lit ''Converting: '' @ path_name c)"
    "fs_read (fs w) (fspath c) = Inr b"
    "convert_loop cs (AList.update (path_name c) (data_uri_of (fspath c) b) rs)
       (w\<lparr>stdout := stdout w @ [lit ''Converting: '' @ path_name c],
          reads := reads w @ [fspath c]\<rparr>) = (Inr rs', w')"
  using assms
  by (auto simp: convert_loop_supported split: if_splits sum.splits)

lemma convert_loop_fs:
  "convert_loop cs rs w = (r, w') \<Longrightarrow> fs w' = fs w \<and> console w' = console w"
proof (induction cs arbitrary: rs w)
  case Nil
  then show ?case by auto
next
  case (Cons c cs)
  show ?case
  proof (cases "lower (path_suffix c) \<in> set extensions")
    case False
    with Cons show ?thesis
      by (simp add: convert_loop_skip)
  next
    case True
    show ?thesis
    proof (cases "fs_read (fs w) (fspath c)")
      case (Inl e)
      with Cons.prems True show ?thesis
        by (auto simp: convert_loop_supported split: if_splits)
    next
      case (Inr b)
      show ?thesis
      proof (cases "encodable w (lit ''Converting: '' @ path_name c)")
        case False
        with Cons.prems True show ?thesis
          by (auto simp: convert_loop_supported)
      next
        case enc: True
        from Cons.prems True Inr enc have
          "convert_loop cs (AList.update (path_name c) (data_uri_of (fspath c) b) rs)
             (w\<lparr>stdout := stdout w @ [lit ''Converting: '' @ path_name c],
                reads := reads w @ [fspath c]\<rparr>) = (r, w')"
          by (simp add: convert_loop_supported)
        from Cons.IH [OF this] show ?thesis
          by simp
      qed
    qed
  qed
qed

lemma convert_loop_keys:
  "convert_loop cs rs w = (Inr rs', w') \<Longrightarrow>
     set (map fst rs') =
       set (map fst rs) \<union> {path_name c |c. c \<in> set cs \<and> lower (path_suffix c) \<in> set extensions}"
proof (induction cs arbitrary: rs w)
  case Nil
  then show ?case by auto
next
  case (Cons c cs)
  show ?case
  proof (cases "lower (path_suffix c) \<in> set extensions")
    case False
    with Cons.IH [of rs w] Cons.prems show ?thesis
      by (auto simp: convert_loop_skip)
  next
    case True
    from convert_loop_ok [OF Cons.prems True] obtain b where
      loop: "convert_loop cs (AList.update (path_name c) (data_uri_of (fspath c) b) rs)
       (w\<lparr>stdout := stdout w @ [lit ''Converting: '' @ path_name c],
          reads := reads w @ [fspath c]\<rparr>) = (Inr rs', w')"
      by blast
    from Cons.IH [OF loop]
    have "set (map fst rs') =
            set (map fst (AList.update (path_name c) (data_uri_of (fspath c) b) rs))
            \<union> {path_name c' |c'. c' \<in> set cs \<and> lower (path_suffix c') \<in> set extensions}" .
    with True show ?thesis
      by (auto simp: dom_update image_iff)
  qed
qed

lemma convert_loop_reads_ok:
  "convert_loop cs rs w = (Inr rs', w') \<Longrightarrow> c \<in> set cs \<Longrightarrow>
     lower (path_suffix c) \<in> set extensions \<Longrightarrow> \<exists>b. fs_read (fs w) (fspath c) = Inr b"
proof (induction cs arbitrary: rs w)
  case Nil
  then show ?case by simp
next
  case (Cons d cs)
  show ?case
  proof (cases "lower (path_suffix d) \<in> set extensions")
    case False
    with Cons.prems have "c \<in> set cs" "convert_loop cs rs w = (Inr rs', w')"
      by (auto simp: convert_loop_skip)
    with Cons.IH Cons.prems(3) show ?thesis
      by blast
  next
    case True
    from convert_loop_ok [OF Cons.prems(1) True] obtain b where
      b: "fs_read (fs w) (fspath d) = Inr b" and
      loop: "convert_loop cs (AList.update (path_name d) (data_uri_of (fspath d) b) rs)
       (w\<lparr>stdout := stdout w @ [lit ''Converting: '' @ path_name d],
          reads := reads w @ [fspath d]\<rparr>) = (Inr rs', w')"
      by blast
    show ?thesis
    proof (cases "c = d")
      case True
      with b show ?thesis by simp
    next
      case False
      with Cons.prems have c: "c \<in> set cs" by simp
      from Cons.IH [OF loop c Cons.prems(3)] show ?thesis
        by simp
    qed
  qed
qed

lemma convert_loop_cong:
  assumes "\<forall>c\<in>set cs. lower (path_suffix c) \<in> set extensions \<longrightarrow>
             fs_read (fs v) (fspath c) = fs_read (fs w) (fspath c)"
    and "console v = console w"
  shows "fst (convert_loop cs rs v) = fst (convert_loop cs rs w)"
  using assms
proof (induction cs arbitrary: rs v w)
  case Nil
  show ?case by simp
next
  case (Cons c cs)
  show ?case
  proof (cases "lower (path_suffix c) \<in> set extensions")
    case False
    with Cons show ?thesis
      by (simp add: convert_loop_skip)
  next
    case True
    with Cons.prems have same: "fs_read (fs v) (fspath c) = fs_read (fs w) (fspath c)"
      by simp
    have enc: "encodable v (lit ''Converting: '' @ path_name c)
        = encodable w (lit ''Converting: '' @ path_name c)"
      using Cons.prems(2) by (rule encodable_console)
    show ?thesis
    proof (cases "fs_read (fs w) (fspath c)")
      case (Inl e)
      with same True enc show ?thesis
        by (simp add: convert_loop_supported)
    next
      case (Inr b)
      let ?rs = "AList.update (path_name c) (data_uri_of (fspath c) b) rs"
      let ?line = "lit ''Converting: '' @ path_name c"
      have "fst (convert_loop cs ?rs (v\<lparr>stdout := stdout v @ [?line], reads := reads v @ [fspath c]\<rparr>))
          = fst (convert_loop cs ?rs (w\<lparr>stdout := stdout w @ [?line], reads := reads w @ [fspath c]\<rparr>))"
        using Cons.prems by (intro Cons.IH) simp_all
      with Inr same True enc show ?thesis
        by (simp add: convert_loop_supported)
    qed
  qed
qed

lemma convert_loop_snoc_skip:
  "lower (path_suffix d) \<notin> set extensions \<Longrightarrow>
     convert_loop (cs @ [d]) rs w = convert_loop cs rs w"
proof (induction cs arbitrary: rs w)
  case Nil
  then show ?case by (simp add: convert_loop_skip)
next
  case (Cons c cs)
  then show ?case
    by (simp add: convert_loop_Cons split: sum.splits prod.splits)
qed

lemma convert_loop_none:
  "\<forall>c\<in>set cs. lower (path_suffix c) \<notin> set extensions \<Longrightarrow>
     convert_loop cs rs w = (Inr rs, w)"
  by (induction cs) (simp_all add: convert_loop_skip)

lemma convert_loop_value:
  assumes "convert_loop cs rs w = (Inr rs', w')"
    and "\<forall>d\<in>set cs. path_name d = path_name c \<longrightarrow> d = c"
    and "fs_read (fs w) (fspath c) = Inr b"
    and "(c \<in> set cs \<and> lower (path_suffix c) \<in> set extensions)
         \<or> map_of rs (path_name c) = Some (data_uri_of (fspath c) b)"
  shows "map_of rs' (path_name c) = Some (data_uri_of (fspath c) b)"
  using assms
proof (induction cs arbitrary: rs w)
  case Nil
  then show ?case by simp
next
  case (Cons d cs)
  from Cons.prems(2) have uniq: "\<forall>d\<in>set cs. path_name d = path_name c \<longrightarrow> d = c"
    by simp
  show ?case
  proof (cases "lower (path_suffix d) \<in> set extensions")
    case False
    with Cons.prems(1) have loop: "convert_loop cs rs w = (Inr rs', w')"
      by (simp add: convert_loop_skip)
    from False Cons.prems(4) have
      "(c \<in> set cs \<and> lower (path_suffix c) \<in> set extensions)
       \<or> map_of rs (path_name c) = Some (data_uri_of (fspath c) b)"
      by auto
    from Cons.IH [OF loop uniq Cons.prems(3) this] show ?thesis .
  next
    case True
    let ?w = "w\<lparr>stdout := stdout w @ [lit ''Converting: '' @ path_name d],
                 reads := reads w @ [fspath d]\<rparr>"
    from convert_loop_ok [OF Cons.prems(1) True] obtain x where
      x: "fs_read (fs w) (fspath d) = Inr x" and
      loop: "convert_loop cs (AList.update (path_name d) (data_uri_of (fspath d) x) rs) ?w
               = (Inr rs', w')"
      by blast
    let ?rs = "AList.update (path_name d) (data_uri_of (fspath d) x) rs"
    have content: "fs_read (fs ?w) (fspath c) = Inr b"
      using Cons.prems(3) by simp
    have "(c \<in> set cs \<and> lower (path_suffix c) \<in> set extensions)
          \<or> map_of ?rs (path_name c) = Some (data_uri_of (fspath c) b)"
    proof (cases "path_name d = path_name c")
      case True
      with Cons.prems(2) have "d = c"
        by simp
      with x Cons.prems(3) show ?thesis
        by (simp add: update_conv')
    next
      case False
      with Cons.prems(4) show ?thesis
        by (auto simp: update_conv')
    qed
    from Cons.IH [OF loop uniq content this] show ?thesis .
  qed
qed

section \<open>The general-purpose converter as a whole\<close>

lemma iterdir_exists: "iterdir p w = Inr children \<Longrightarrow> exists p w = Inr True"
  by (auto simp: iterdir_def exists_def split: sum.splits)

lemma iterdir_Path:
  "iterdir (Path s) w = Inr children \<longleftrightarrow>
     (\<exists>es. fs_stat (fs w) (fspath (Path s)) = Inr (Dir es)
           \<and> children = map (\<lambda>e. make_child (Path s) (fst e)) es)"
  by (auto simp: iterdir_def split: sum.splits node.splits)

lemma convert_unfold:
  assumes "iterdir (Path s) w = Inr children"
  shows "convert_all_images_in_folder s w =
           (case convert_loop children [] w of
              (Inl e, w1) \<Rightarrow> (Inl e, w1)
            | (Inr results, w1) \<Rightarrow>
                (case write_text (fspath (make_child (Path s) (lit ''converted_images.json'')))
                        (json_dumps results) w1 of
                   (Inl e, w2) \<Rightarrow> (Inl e, w2)
                 | (Inr u, w2) \<Rightarrow>
                     print_lines
                       (summary (make_child (Path s) (lit ''converted_images.json''))
                          (length results)) w2))"
  using assms iterdir_exists [OF assms]
  by (simp add: convert_all_images_in_folder_def summary_def Let_def
        split: prod.splits sum.splits)

lemma convert_run:
  assumes "iterdir (Path s) w = Inr children"
    and "convert_loop children [] w = (Inr results, w1)"
    and "fs_create (fs w) (fspath (make_child (Path s) (lit ''converted_images.json'')))
           (map of_nat (json_dumps results)) = Inr tree'"
    and "\<forall>l\<in>set (summary (make_child (Path s) (lit ''converted_images.json''))
                    (length results)). encodable w l"
  shows "convert_all_images_in_folder s w =
           (Inr (), w1\<lparr>fs := tree', stdout := stdout w1
              @ summary (make_child (Path s) (lit ''converted_images.json'')) (length results)\<rparr>)"
proof -
  from convert_loop_fs [OF assms(2)] have same: "fs w1 = fs w" "console w1 = console w"
    by simp_all
  have "encodable (w1\<lparr>fs := tree'\<rparr>) = encodable w"
    using same(2) by (simp add: encodable_def fun_eq_iff)
  with assms same show ?thesis
    by (simp add: convert_unfold write_text_def print_lines_eq)
qed

lemma convert_success:
  assumes "iterdir (Path s) w = Inr children"
    and "convert_all_images_in_folder s w = (Inr (), w')"
  obtains results w1 tree' where
    "convert_loop children [] w = (Inr results, w1)"
    "fs_create (fs w) (fspath (make_child (Path s) (lit ''converted_images.json'')))
       (map of_nat (json_dumps results)) = Inr tree'"
    "fs w' = tree'"
    "\<forall>l\<in>set (summary (make_child (Path s) (lit ''converted_images.json''))
                (length results)). encodable w l"
proof -
  let ?out = "make_child (Path s) (lit ''converted_images.json'')"
  obtain r w1 where loop: "convert_loop children [] w = (r, w1)"
    by (cases "convert_loop children [] w")
  with assms obtain results where r: "r = Inr results"
    by (cases r) (auto simp: convert_unfold)
  from convert_loop_fs [OF loop] have same: "fs w1 = fs w" "console w1 = console w"
    by simp_all
  obtain x where wr: "fs_create (fs w) (fspath ?out) (map of_nat (json_dumps results)) = x"
    by simp
  with assms loop r same obtain tree' where tree': "x = Inr tree'"
    by (cases x) (auto simp: convert_unfold write_text_def)
  have enc: "encodable (w1\<lparr>fs := tree'\<rparr>) = encodable w"
    using same(2) by (simp add: encodable_def fun_eq_iff)
  from assms loop r same wr tree' enc
  have lines: "\<forall>l\<in>set (summary ?out (length results)). encodable w l"
    by (auto simp: convert_unfold write_text_def print_lines_eq split: if_splits)
  from convert_run [OF assms(1) loop [unfolded r] wr [unfolded tree'] lines] assms(2)
  have "fs w' = tree'"
    by auto
  with loop r wr tree' lines that show thesis
    by blast
qed

lemmas eval_defs = lit_def Path_def fspath_def joinpath_def path_components_def
       path_suffix_def suffix_of_name_def path_name_def make_child_def exists_def iterdir_def
       read_bytes_def fs_read_def write_text_def print_def convert_all_images_in_folder_def
       image_to_data_uri_def extensions_def lower_def lower_cp_def splitext_def splitext_scan.simps
       dict_get_def mime_types_def b64_char_def bytes_to_nat_def json_dumps_def json_item_def
       encode_basestring_ascii_def json_escape_def hex4_def hex_digit_def check_mark_def
       str_of_nat.simps example_world_def example_fs_def fixed_folder_script_def
       convert_loop_Cons fs_stat_def resolve_def fs_create_def kernel_components_def
       fsencodable_def fsencode_len_def utf8_len_def NAME_MAX_def PATH_MAX_def encodable_def
       ignored_def

section \<open>The data URI\<close>

lemma dict_get_mime_types:
  "dict_get mime_types e (lit ''image/png'') = spec_mime e"
  by (simp add: dict_get_def mime_types_def spec_mime_def)

lemma spec_mime_cases:
  "spec_mime e \<in> {lit ''image/png'', lit ''image/jpeg'', lit ''image/gif'', lit ''image/webp''}"
  by (simp add: spec_mime_def)

lemma data_uri_of_spec:
  "data_uri_of p b =
     lit ''data:'' @ spec_mime (lower (drop 1 (snd (splitext p)))) @ lit '';base64,'' @ b64encode b"
  by (simp add: data_uri_of_def dict_get_mime_types)

lemma mime_segment_data_uri:
  assumes "m \<in> {lit ''image/png'', lit ''image/jpeg'', lit ''image/gif'', lit ''image/webp''}"
  shows "mime_segment (lit ''data:'' @ m @ lit '';base64,'' @ x) = m"
  using assms by (auto simp: mime_segment_def lit_def)

lemma base64_portion_data_uri:
  assumes "m \<in> {lit ''image/png'', lit ''image/jpeg'', lit ''image/gif'', lit ''image/webp''}"
  shows "base64_portion (lit ''data:'' @ m @ lit '';base64,'' @ x) = Some x"
  using assms by (auto simp: base64_portion_def lit_def)

lemma b64_char_range: "43 \<le> b64_char i \<and> b64_char i \<le> 122"
proof -
  have "i mod 64 < 64" by simp
  then show ?thesis
    unfolding b64_char_def Let_def by auto
qed

lemma b64encode_chars: "c \<in> set (b64encode b) \<Longrightarrow> 43 \<le> c \<and> c \<le> 122"
proof (induction b arbitrary: c rule: b64encode.induct)
  case 1
  then show ?case by simp
next
  case (2 a)
  then show ?case
    using b64_char_range by (auto simp: Let_def)
next
  case (3 a b)
  then show ?case
    using b64_char_range by (auto simp: Let_def)
next
  case (4 a b c rest)
  then show ?case
    using b64_char_range by (auto simp: Let_def)
qed

lemma printable_not_space: "33 \<le> c \<Longrightarrow> c \<le> 126 \<Longrightarrow> \<not> isspace c"
  by (simp add: isspace_def)

lemma data_uri_no_space:
  assumes "m \<in> {lit ''image/png'', lit ''image/jpeg'', lit ''image/gif'', lit ''image/webp''}"
    and "c \<in> set (lit ''data:'' @ m @ lit '';base64,'' @ b64encode b)"
  shows "\<not> isspace c"
proof -
  have "33 \<le> c \<and> c \<le> 126"
    using assms b64encode_chars [of c b] by (auto simp: lit_def)
  then show ?thesis
    by (simp add: printable_not_space)
qed

text \<open>
  Claim C2. For every file path, the MIME segment of the string that \<open>image_to_data_uri\<close>
  returns is fixed by the extension of the path alone, lowered and without its dot:
  \<open>png\<close> gives \<open>image/png\<close>, \<open>jpg\<close> and \<open>jpeg\<close> give \<open>image/jpeg\<close>, \<open>gif\<close> gives
  \<open>image/gif\<close>, \<open>webp\<close> gives \<open>image/webp\<close>, and every other extension gives
  \<open>image/png\<close>. The dictionary lookup of the code is compared with the table as the
  specification words it (\<open>spec_mime\<close>).
\<close>

theorem mime_segment_by_extension:
  assumes "image_to_data_uri image_path w = (Inr uri, w')"
  shows "mime_segment uri = spec_mime (lower (drop 1 (snd (splitext image_path))))"
proof -
  from assms obtain b where "uri = data_uri_of image_path b"
    by (auto simp: image_to_data_uri_eq split: sum.splits)
  then show ?thesis
    by (simp add: data_uri_of_spec mime_segment_data_uri [OF spec_mime_cases])
qed

theorem mime_segment_by_extension_witness:
  "image_to_data_uri (lit ''glyphs/a.png'') example_world
     = (Inr (lit ''data:image/png;base64,iVBORw==''),
        example_world\<lparr>reads := [lit ''glyphs/a.png'']\<rparr>)
   \<and> mime_segment (lit ''data:image/png;base64,iVBORw=='') = lit ''image/png''"
proof -
  have run: "image_to_data_uri (lit ''glyphs/a.png'') example_world
     = (Inr (lit ''data:image/png;base64,iVBORw==''),
        example_world\<lparr>reads := [lit ''glyphs/a.png'']\<rparr>)"
    by (simp add: eval_defs)
  have "spec_mime (lower (drop 1 (snd (splitext (lit ''glyphs/a.png''))))) = lit ''image/png''"
    by (simp add: spec_mime_def eval_defs)
  with mime_segment_by_extension [OF run] run show ?thesis
    by simp
qed

text \<open>
  Claim C3. For every readable file, whatever its extension and its content \<open>b\<close>, the
  string returned by \<open>image_to_data_uri\<close> is \<open>data:\<close>, the MIME type, \<open>;base64,\<close> and the
  Base64 text of \<open>b\<close>; no character of it is white space; and decoding what follows
  \<open>base64,\<close> gives \<open>b\<close> back.
\<close>

theorem data_uri_round_trip:
  assumes "fs_read (fs w) image_path = Inr b"
  shows "\<exists>uri. fst (image_to_data_uri image_path w) = Inr uri
           \<and> uri = lit ''data:'' @ spec_mime (lower (drop 1 (snd (splitext image_path))))
                   @ lit '';base64,'' @ b64encode b
           \<and> (\<forall>c\<in>set uri. \<not> isspace c)
           \<and> Option.bind (base64_portion uri) b64decode = Some b"
proof -
  let ?m = "spec_mime (lower (drop 1 (snd (splitext image_path))))"
  let ?uri = "lit ''data:'' @ ?m @ lit '';base64,'' @ b64encode b"
  have "fst (image_to_data_uri image_path w) = Inr ?uri"
    using assms by (simp add: image_to_data_uri_eq data_uri_of_spec)
  moreover have "\<forall>c\<in>set ?uri. \<not> isspace c"
    using data_uri_no_space [OF spec_mime_cases] by blast
  moreover have "Option.bind (base64_portion ?uri) b64decode = Some b"
    by (simp add: base64_portion_data_uri [OF spec_mime_cases] b64decode_b64encode)
  ultimately show ?thesis
    by blast
qed

theorem data_uri_round_trip_witness:
  "fs_read (fs example_world) (lit ''glyphs/a.png'') = Inr [137, 80, 78, 71]
   \<and> fst (image_to_data_uri (lit ''glyphs/a.png'') example_world)
       = Inr (lit ''data:image/png;base64,iVBORw=='')
   \<and> Option.bind (base64_portion (lit ''data:image/png;base64,iVBORw=='')) b64decode
       = Some [137, 80, 78, 71]"
proof -
  have content: "fs_read (fs example_world) (lit ''glyphs/a.png'') = Inr [137, 80, 78, 71]"
    by (simp add: eval_defs)
  have uri: "lit ''data:'' @ spec_mime (lower (drop 1 (snd (splitext (lit ''glyphs/a.png'')))))
               @ lit '';base64,'' @ b64encode [137, 80, 78, 71]
             = lit ''data:image/png;base64,iVBORw==''"
    by (simp add: spec_mime_def eval_defs)
  from data_uri_round_trip [OF content] content show ?thesis
    unfolding uri by simp
qed

section \<open>The folder guard\<close>

lemma fspath_single:
  assumes "s \<noteq> []" "47 \<notin> set s" "s \<noteq> [46]"
  shows "fspath (Path s) = s"
proof -
  have "take 1 s \<noteq> [47]"
    using assms(1,2) by (cases s) auto
  then show ?thesis
    using assms by (simp add: fspath_def Path_def path_components_def split_on_no_sep)
qed

lemma fsencode_len_replicate: "fsencode_len (replicate n 97) = n"
  by (induction n) (simp_all add: fsencode_len_Cons utf8_len_def)

lemma long_name:
  "replicate 256 (97::nat) \<noteq> []" "47 \<notin> set (replicate 256 (97::nat))"
  "replicate 256 (97::nat) \<noteq> [46]" "replicate 256 (97::nat) \<noteq> [46, 46]"
proof -
  show "replicate 256 (97::nat) \<noteq> []" "47 \<notin> set (replicate 256 (97::nat))"
    by simp_all
  show "replicate 256 (97::nat) \<noteq> [46]"
  proof
    assume "replicate 256 (97::nat) = [46]"
    then have "length (replicate 256 (97::nat)) = length [46::nat]"
      by (rule arg_cong)
    then show False
      by simp
  qed
  show "replicate 256 (97::nat) \<noteq> [46, 46]"
  proof
    assume "replicate 256 (97::nat) = [46, 46]"
    then have "length (replicate 256 (97::nat)) = length [46::nat, 46]"
      by (rule arg_cong)
    then show False
      by simp
  qed
qed

lemma stat_long_name:
  "fs_stat example_fs (replicate 256 97) = Inl (Errno ENAMETOOLONG)"
proof -
  have "kernel_components (replicate 256 97) = [replicate 256 97]"
    by (simp add: kernel_components_def split_on_no_sep)
  moreover have "admissible (replicate 256 97)"
    by (simp add: admissible_def fsencodable_def list_all_iff fsencode_len_replicate PATH_MAX_def)
  ultimately show ?thesis
    using long_name by (simp add: fs_stat_reach reach_Cons example_fs_def NAME_MAX_def fsencode_len_replicate)
qed

text \<open>
  Claim C4 as stated fails in four ways. (1) For a name of 256 characters \<open>os.stat\<close> fails
  with \<open>ENAMETOOLONG\<close>, which \<open>exists\<close> does not take for an answer: the call raises
  \<open>OSError\<close>. (2) \<open>notes.txt/\<close> names nothing, \<open>notes.txt\<close> being a regular file, but the
  path object drops the slash, so the guard passes and listing raises
  \<open>NotADirectoryError\<close>. (3) The empty path names nothing, but the path object made from it
  is the current directory, which is converted. (4) For a missing path with a lone
  surrogate the message cannot be printed on a strict UTF-8 console: \<open>print\<close> raises
  \<open>UnicodeEncodeError\<close>.
\<close>

theorem missing_folder_counterexample:
  "fs_stat (fs example_world) (replicate 256 97) = Inl (Errno ENAMETOOLONG)
   \<and> convert_all_images_in_folder (replicate 256 97) example_world
       = (Inl (OSError ENAMETOOLONG (replicate 256 97)), example_world)
   \<and> fs_stat (fs example_world) (lit ''notes.txt/'') = Inl (Errno ENOTDIR)
   \<and> convert_all_images_in_folder (lit ''notes.txt/'') example_world
       = (Inl (NotADirectoryError (lit ''notes.txt'')), example_world)
   \<and> fs_stat (fs example_world) [] = Inl (Errno ENOENT)
   \<and> fst (convert_all_images_in_folder [] example_world) = Inr ()
   \<and> stdout (snd (convert_all_images_in_folder [] example_world))
       = [[10] @ check_mark @ lit '' Converted 0 images'',
          check_mark @ lit '' Results saved to: converted_images.json'',
          [10] @ lit ''You can now copy the data URIs from the JSON file!'']
   \<and> fs_read (fs (snd (convert_all_images_in_folder [] example_world)))
         (lit ''converted_images.json'') = Inr (map of_nat (lit ''{}''))
   \<and> fs_stat (fs example_world) [56448] = Inl (Errno ENOENT)
   \<and> convert_all_images_in_folder [56448] example_world
       = (Inl (UnicodeEncodeError
                 (lit ''Error: Folder '' @ [39] @ [56448] @ [39] @ lit '' not found!'')),
          example_world)"
proof -
  have long: "fs_stat (fs example_world) (replicate 256 97) = Inl (Errno ENAMETOOLONG)"
    using stat_long_name by (simp add: example_world_def)
  have "fspath (Path (replicate 256 97)) = replicate 256 97"
    using long_name by (intro fspath_single)
  with long have raised: "convert_all_images_in_folder (replicate 256 97) example_world
       = (Inl (OSError ENAMETOOLONG (replicate 256 97)), example_world)"
    by (simp add: convert_all_images_in_folder_def exists_def ignored_def)
  have slash: "fs_stat (fs example_world) (lit ''notes.txt/'') = Inl (Errno ENOTDIR)"
    "convert_all_images_in_folder (lit ''notes.txt/'') example_world
       = (Inl (NotADirectoryError (lit ''notes.txt'')), example_world)"
    by (simp_all add: eval_defs)
  have empty: "fs_stat (fs example_world) [] = Inl (Errno ENOENT)"
    "fst (convert_all_images_in_folder [] example_world) = Inr ()"
    "stdout (snd (convert_all_images_in_folder [] example_world))
       = [[10] @ check_mark @ lit '' Converted 0 images'',
          check_mark @ lit '' Results saved to: converted_images.json'',
          [10] @ lit ''You can now copy the data URIs from the JSON file!'']"
    "fs_read (fs (snd (convert_all_images_in_folder [] example_world)))
         (lit ''converted_images.json'') = Inr (map of_nat (lit ''{}''))"
    by (simp_all add: eval_defs)
  have surrogate: "fs_stat (fs example_world) [56448] = Inl (Errno ENOENT)"
    "convert_all_images_in_folder [56448] example_world
       = (Inl (UnicodeEncodeError
                 (lit ''Error: Folder '' @ [39] @ [56448] @ [39] @ lit '' not found!'')),
          example_world)"
    by (simp_all add: eval_defs)
  from long raised slash empty surrogate show ?thesis
    by blast
qed

lemma error_line_encodable:
  "encodable w p \<Longrightarrow>
     encodable w (lit ''Error: Folder '' @ [39] @ p @ [39] @ lit '' not found!'')"
  by (simp add: encodable_def lit_def)

text \<open>
  Claim C4, amended. When \<open>os.stat\<close> finds nothing at the folder path, and it is not
  that a name in it is too long; the path is not empty; where a component is a regular file
  the path does not end in a slash or in \<open>.\<close>; and the console can encode the path: then
  \<open>convert_all_images_in_folder\<close> returns normally, and the world it leaves differs from the
  one it found by one printed line, \<open>Error: Folder '<path>' not found!\<close>: the file system is
  unchanged (no output file is created) and so is the list of files read.
\<close>

theorem missing_folder_is_reported:
  assumes "fs_stat (fs w) folder_path = Inl f"
    and "f \<noteq> Errno ENAMETOOLONG"
    and "folder_path \<noteq> []"
    and "f = Errno ENOTDIR \<longrightarrow>
           last (split_on 47 folder_path) \<noteq> [] \<and> last (split_on 47 folder_path) \<noteq> [46]"
    and "encodable w folder_path"
  shows "convert_all_images_in_folder folder_path w =
           (Inr (), w\<lparr>stdout := stdout w
              @ [lit ''Error: Folder '' @ [39] @ folder_path @ [39] @ lit '' not found!'']\<rparr>)"
proof -
  from stat_missing_normal [OF assms(1-4)] obtain g where
    "fs_stat (fs w) (fspath (Path folder_path)) = Inl g" "ignored g"
    by blast
  then have "exists (Path folder_path) w = Inr False"
    by (simp add: exists_def)
  with error_line_encodable [OF assms(5)] show ?thesis
    by (simp add: convert_all_images_in_folder_def print_ok)
qed

theorem missing_folder_is_reported_witness:
  "fs_stat (fs example_world) (lit ''nowhere'') = Inl (Errno ENOENT)
   \<and> convert_all_images_in_folder (lit ''nowhere'') example_world =
       (Inr (), example_world
          \<lparr>stdout := [lit ''Error: Folder '' @ [39] @ lit ''nowhere'' @ [39] @ lit '' not found!'']\<rparr>)
   \<and> fs_stat (fs example_world) (lit ''./notes.txt//x'') = Inl (Errno ENOTDIR)
   \<and> convert_all_images_in_folder (lit ''./notes.txt//x'') example_world =
       (Inr (), example_world
          \<lparr>stdout := [lit ''Error: Folder '' @ [39] @ lit ''./notes.txt//x'' @ [39]
                        @ lit '' not found!'']\<rparr>)"
proof -
  have absent: "fs_stat (fs example_world) (lit ''nowhere'') = Inl (Errno ENOENT)"
    by (simp add: eval_defs)
  have blocked: "fs_stat (fs example_world) (lit ''./notes.txt//x'') = Inl (Errno ENOTDIR)"
    by (simp add: eval_defs)
  have "encodable example_world (lit ''nowhere'')"
    "encodable example_world (lit ''./notes.txt//x'')"
    "last (split_on 47 (lit ''./notes.txt//x'')) = lit ''x''"
    by (simp_all add: encodable_def lit_def)
  with missing_folder_is_reported [OF absent] missing_folder_is_reported [OF blocked]
    absent blocked
  show ?thesis
    by (simp add: example_world_def lit_def)
qed

lemma stat_primary:
  "fs_stat tree (lit ''primary'') =
     (case tree of File b \<Rightarrow> Inl (Errno ENOTDIR)
      | Dir es \<Rightarrow> (case map_of es (lit ''primary'') of
                     None \<Rightarrow> Inl (Errno ENOENT) | Some n \<Rightarrow> Inr n))"
  by (cases tree)
     (auto simp: eval_defs split: option.splits node.splits)

text \<open>
  Claim C8. The fixed-folder variant does not check that \<open>primary\<close> exists: when it does
  not, listing it raises an error that nothing catches, and the script ends there with
  nothing printed and nothing written. The general-purpose converter, called on the same
  path in the same world, returns normally.
\<close>

theorem fixed_folder_has_no_existence_check:
  assumes "exists (Path (lit ''primary'')) w = Inr False"
  shows "(fixed_folder_script w = (Inl (FileNotFoundError (lit ''primary'')), w)
          \<or> fixed_folder_script w = (Inl (NotADirectoryError (lit ''primary'')), w))
       \<and> fst (convert_all_images_in_folder (lit ''primary'') w) = Inr ()"
proof -
  have path: "fspath (Path (lit ''primary'')) = lit ''primary''"
    by (simp add: eval_defs)
  from assms have
    "fs_stat (fs w) (lit ''primary'') = Inl (Errno ENOENT)
     \<or> fs_stat (fs w) (lit ''primary'') = Inl (Errno ENOTDIR)"
    by (auto simp: exists_def path stat_primary split: node.splits option.splits)
  then have
    "iterdir (Path (lit ''primary'')) w = Inl (FileNotFoundError (lit ''primary''))
     \<or> iterdir (Path (lit ''primary'')) w = Inl (NotADirectoryError (lit ''primary''))"
    by (auto simp: iterdir_def path)
  then have "fixed_folder_script w = (Inl (FileNotFoundError (lit ''primary'')), w)
          \<or> fixed_folder_script w = (Inl (NotADirectoryError (lit ''primary'')), w)"
    by (auto simp: fixed_folder_script_def)
  moreover have "encodable w (lit ''Error: Folder '' @ [39] @ lit ''primary'' @ [39]
      @ lit '' not found!'')"
    by (simp add: encodable_def lit_def)
  then have "fst (convert_all_images_in_folder (lit ''primary'') w) = Inr ()"
    using assms by (simp add: convert_all_images_in_folder_def print_ok)
  ultimately show ?thesis
    by blast
qed

theorem fixed_folder_has_no_existence_check_witness:
  "exists (Path (lit ''primary''))
     \<lparr>fs = Dir [(lit ''examples'', Dir [])], stdout = [], reads = [], console = (\<lambda>c. False)\<rparr>
     = Inr False
   \<and> fixed_folder_script
       \<lparr>fs = Dir [(lit ''examples'', Dir [])], stdout = [], reads = [], console = (\<lambda>c. False)\<rparr>
       = (Inl (FileNotFoundError (lit ''primary'')),
          \<lparr>fs = Dir [(lit ''examples'', Dir [])], stdout = [], reads = [],
            console = (\<lambda>c. False)\<rparr>)
   \<and> fst (convert_all_images_in_folder (lit ''primary'')
            \<lparr>fs = Dir [(lit ''examples'', Dir [])], stdout = [], reads = [],
              console = (\<lambda>c. False)\<rparr>) = Inr ()"
proof -
  let ?w = "\<lparr>fs = Dir [(lit ''examples'', Dir [])], stdout = [], reads = [],
             console = (\<lambda>c. False)\<rparr>"
  have absent: "exists (Path (lit ''primary'')) ?w = Inr False"
    by (simp add: eval_defs)
  have "fixed_folder_script ?w \<noteq> (Inl (NotADirectoryError (lit ''primary'')), ?w)"
    by (simp add: eval_defs)
  with fixed_folder_has_no_existence_check [OF absent] absent show ?thesis
    by simp
qed

text \<open>
  Claim C9. The guard of \<open>convert_all_images_in_folder\<close> tests existence only. For a path
  that names a regular file the guard passes, and listing the path raises
  \<open>NotADirectoryError\<close>, which nothing catches; the world is left as it was, so no
  \<open>not found\<close> line is printed and no output file is written. The path is taken as the
  code takes it, through the path object; every path string at which \<open>os.stat\<close> finds a
  regular file is such a path (\<open>stat_file_normal\<close>).
\<close>

theorem regular_file_passes_the_guard:
  assumes "fs_stat (fs w) (fspath (Path folder_path)) = Inr (File b)"
  shows "exists (Path folder_path) w = Inr True
       \<and> convert_all_images_in_folder folder_path w =
           (Inl (NotADirectoryError (fspath (Path folder_path))), w)"
  using assms
  by (simp add: convert_all_images_in_folder_def exists_def iterdir_def)

theorem regular_file_passes_the_guard_witness:
  "fs_stat (fs example_world) (fspath (Path (lit ''notes.txt''))) = Inr (File [104, 105])
   \<and> exists (Path (lit ''notes.txt'')) example_world = Inr True
   \<and> convert_all_images_in_folder (lit ''notes.txt'') example_world =
       (Inl (NotADirectoryError (lit ''notes.txt'')), example_world)"
proof -
  have regular: "fs_stat (fs example_world) (fspath (Path (lit ''notes.txt'')))
                   = Inr (File [104, 105])"
    by (simp add: eval_defs)
  have "fspath (Path (lit ''notes.txt'')) = lit ''notes.txt''"
    by (simp add: eval_defs)
  with regular_file_passes_the_guard [OF regular] regular show ?thesis
    by simp
qed

section \<open>The output file\<close>

lemma lower_fold_case: "304 \<notin> set e \<Longrightarrow> 8490 \<notin> set e \<Longrightarrow> lower e = map fold_case e"
  by (induction e) (auto simp: lower_def lower_cp_def fold_case_def)

lemma lower_dotted: "304 \<in> set e \<Longrightarrow> 775 \<in> set (lower e)"
  by (induction e) (auto simp: lower_def lower_cp_def)

lemma lower_kelvin: "8490 \<in> set e \<Longrightarrow> 107 \<in> set (lower e)"
  by (induction e) (auto simp: lower_def lower_cp_def)

lemma fold_case_above: "c \<in> set e \<Longrightarrow> 90 < c \<Longrightarrow> c \<in> set (map fold_case e)"
  by (force simp: fold_case_def)

text \<open>
  The test of the code, \<open>suffix.lower() in extensions\<close>, decides what the specification
  calls a supported extension.
\<close>

lemma supported_iff: "lower e \<in> set extensions \<longleftrightarrow> spec_image_suffix e"
proof
  assume code: "lower e \<in> set extensions"
  then have "775 \<notin> set (lower e)" "107 \<notin> set (lower e)"
    by (auto simp: extensions_def lit_def)
  then have "304 \<notin> set e" "8490 \<notin> set e"
    using lower_dotted [of e] lower_kelvin [of e] by auto
  then have "lower e = map fold_case e"
    by (rule lower_fold_case)
  with code show "spec_image_suffix e"
    by (simp add: spec_image_suffix_def extensions_def)
next
  assume spec: "spec_image_suffix e"
  then have "304 \<notin> set (map fold_case e)" "8490 \<notin> set (map fold_case e)"
    by (auto simp: spec_image_suffix_def lit_def)
  then have "304 \<notin> set e" "8490 \<notin> set e"
    using fold_case_above [of 304 e] fold_case_above [of 8490 e] by auto
  then have "lower e = map fold_case e"
    by (rule lower_fold_case)
  with spec show "lower e \<in> set extensions"
    by (auto simp: spec_image_suffix_def extensions_def)
qed

text \<open>
  Claim C5. When \<open>convert_all_images_in_folder\<close> returns normally on a folder, the file
  \<open>converted_images.json\<close> in that folder holds the JSON text of a dictionary whose keys are
  exactly the names, as listed, of the entries whose suffix is a supported extension in the
  words of the specification (\<open>spec_image_suffix\<close>: one of \<open>.png\<close>, \<open>.jpg\<close>, \<open>.jpeg\<close>,
  \<open>.gif\<close>, \<open>.webp\<close>, compared without regard to case). For the folder that holds
  \<open>a.png\<close> and \<open>b.txt\<close> the only key is \<open>a.png\<close>.
\<close>

theorem json_keys_are_supported_entries:
  assumes "iterdir (Path folder_path) w = Inr children"
    and "convert_all_images_in_folder folder_path w = (Inr (), w')"
  shows "\<exists>results.
           fs_read (fs w') (fspath (joinpath (Path folder_path) (lit ''converted_images.json'')))
             = Inr (map of_nat (json_dumps results))
         \<and> set (map fst results)
             = {path_name c |c. c \<in> set children \<and> spec_image_suffix (path_suffix c)}"
proof -
  from assms obtain results w1 tree' where
    loop: "convert_loop children [] w = (Inr results, w1)" and
    wr: "fs_create (fs w) (fspath (make_child (Path folder_path) (lit ''converted_images.json'')))
           (map of_nat (json_dumps results)) = Inr tree'" and
    tree': "fs w' = tree'" and
    "\<forall>l\<in>set (summary (make_child (Path folder_path) (lit ''converted_images.json''))
                (length results)). encodable w l"
    by (rule convert_success)
  from assms(1) obtain es where "fs_stat (fs w) (fspath (Path folder_path)) = Inr (Dir es)"
    by (auto simp: iterdir_Path)
  from folder_walk [OF this] obtain cur where
    cur: "walk (fs w) [] (path_components folder_path) = Inr cur"
      "fs_lookup (fs w) cur = Inr (Dir es)"
    by blast
  have "fs_read (fs w') (fspath (joinpath (Path folder_path) (lit ''converted_images.json'')))
          = Inr (map of_nat (json_dumps results))"
    using fs_read_written [OF cur wr] tree' by simp
  moreover have "set (map fst results)
      = {path_name c |c. c \<in> set children \<and> spec_image_suffix (path_suffix c)}"
    using convert_loop_keys [OF loop] by (simp add: supported_iff)
  ultimately show ?thesis
    by blast
qed

theorem json_keys_are_supported_entries_witness:
  "iterdir (Path (lit ''glyphs'')) example_world
     = Inr [make_child (Path (lit ''glyphs'')) (lit ''a.png''),
            make_child (Path (lit ''glyphs'')) (lit ''b.txt'')]
   \<and> fst (convert_all_images_in_folder (lit ''glyphs'') example_world) = Inr ()
   \<and> fs_read (fs (snd (convert_all_images_in_folder (lit ''glyphs'') example_world)))
         (lit ''glyphs/converted_images.json'')
       = Inr (map of_nat
               (lit ''{'' @ [10]
                @ lit ''  \"a.png\": \"data:image/png;base64,iVBORw==\"'' @ [10]
                @ lit ''}''))
   \<and> (\<exists>results.
         fs_read (fs (snd (convert_all_images_in_folder (lit ''glyphs'') example_world)))
           (lit ''glyphs/converted_images.json'') = Inr (map of_nat (json_dumps results))
       \<and> set (map fst results) = {lit ''a.png''})"
proof -
  let ?children = "[make_child (Path (lit ''glyphs'')) (lit ''a.png''),
                    make_child (Path (lit ''glyphs'')) (lit ''b.txt'')]"
  have listing: "iterdir (Path (lit ''glyphs'')) example_world = Inr ?children"
    by (simp add: eval_defs)
  have ok: "fst (convert_all_images_in_folder (lit ''glyphs'') example_world) = Inr ()"
    by (simp add: eval_defs)
  then have run: "convert_all_images_in_folder (lit ''glyphs'') example_world
      = (Inr (), snd (convert_all_images_in_folder (lit ''glyphs'') example_world))"
    by (simp add: prod_eq_iff)
  have out: "fspath (joinpath (Path (lit ''glyphs'')) (lit ''converted_images.json''))
      = lit ''glyphs/converted_images.json''"
    by (simp add: eval_defs)
  have written:
    "fs_read (fs (snd (convert_all_images_in_folder (lit ''glyphs'') example_world)))
         (lit ''glyphs/converted_images.json'')
       = Inr (map of_nat
               (lit ''{'' @ [10]
                @ lit ''  \"a.png\": \"data:image/png;base64,iVBORw==\"'' @ [10]
                @ lit ''}''))"
    by (simp add: eval_defs)
  have kept: "spec_image_suffix (suffix_of_name (lit ''a.png''))"
    by (simp add: spec_image_suffix_def fold_case_def eval_defs)
  have skipped: "\<not> spec_image_suffix (suffix_of_name (lit ''b.txt''))"
    by (simp add: spec_image_suffix_def fold_case_def eval_defs)
  have keys: "{path_name c |c. c \<in> set ?children \<and> spec_image_suffix (path_suffix c)}
      = {lit ''a.png''}"
  proof
    show "{path_name c |c. c \<in> set ?children \<and> spec_image_suffix (path_suffix c)}
            \<subseteq> {lit ''a.png''}"
      using skipped by auto
    have "make_child (Path (lit ''glyphs'')) (lit ''a.png'') \<in> set ?children"
      by simp
    then show "{lit ''a.png''}
        \<subseteq> {path_name c |c. c \<in> set ?children \<and> spec_image_suffix (path_suffix c)}"
      using kept by force
  qed
  from json_keys_are_supported_entries [OF listing run] listing ok written show ?thesis
    unfolding out keys by simp
qed

section \<open>Running the converter again\<close>

lemma children_after_write:
  "map (\<lambda>e. make_child p (fst e)) (AList.update c v es) =
     (if c \<in> fst ` set es then map (\<lambda>e. make_child p (fst e)) es
      else map (\<lambda>e. make_child p (fst e)) es @ [make_child p c])"
  by (induction es) (auto simp: image_iff)

lemma summary_none:
  "summary output_file 0 =
     [[10] @ check_mark @ lit '' Converted 0 images'',
      check_mark @ lit '' Results saved to: '' @ fspath output_file,
      [10] @ lit ''You can now copy the data URIs from the JSON file!'']"
  by (simp add: summary_def str_of_nat.simps lit_def)

lemma convert_missing:
  assumes "iterdir (Path s) w = Inl e" "convert_all_images_in_folder s w = (Inr (), w1)"
  shows "exists (Path s) w = Inr False
       \<and> encodable w (lit ''Error: Folder '' @ [39] @ s @ [39] @ lit '' not found!'')
       \<and> w1 = w\<lparr>stdout := stdout w
                @ [lit ''Error: Folder '' @ [39] @ s @ [39] @ lit '' not found!'']\<rparr>"
proof (cases "exists (Path s) w")
  case (Inl x)
  with assms(2) show ?thesis
    by (simp add: convert_all_images_in_folder_def)
next
  case (Inr found)
  show ?thesis
  proof (cases found)
    case True
    with Inr assms show ?thesis
      by (simp add: convert_all_images_in_folder_def)
  next
    case False
    with Inr assms(2) show ?thesis
      by (auto simp: convert_all_images_in_folder_def print_def split: if_splits)
  qed
qed

text \<open>
  Claim C6. When a run of \<open>convert_all_images_in_folder\<close> on a folder has returned
  normally, a second run on the same folder, started in the world the first one left,
  returns normally too and leaves the file system exactly as the first run left it: the
  output file is the same, byte for byte. The file \<open>converted_images.json\<close> that the first
  run put into the folder is listed by the second run and skipped, and writing it has not
  changed what is read for any image: the loop of the second run ends with the dictionary
  the loop of the first run ended with.
\<close>

theorem second_run_is_identical:
  assumes "convert_all_images_in_folder folder_path w = (Inr (), w1)"
  shows "(\<exists>w2. convert_all_images_in_folder folder_path w1 = (Inr (), w2) \<and> fs w2 = fs w1)
       \<and> (\<forall>children children1.
             iterdir (Path folder_path) w = Inr children
             \<and> iterdir (Path folder_path) w1 = Inr children1 \<longrightarrow>
             fst (convert_loop children1 [] w1) = fst (convert_loop children [] w))"
proof (cases "iterdir (Path folder_path) w")
  case (Inl e)
  let ?line = "lit ''Error: Folder '' @ [39] @ folder_path @ [39] @ lit '' not found!''"
  from convert_missing [OF Inl assms] have
    first: "exists (Path folder_path) w = Inr False" "encodable w ?line"
      "w1 = w\<lparr>stdout := stdout w @ [?line]\<rparr>"
    by simp_all
  then have "exists (Path folder_path) w1 = Inr False" "encodable w1 ?line" "fs w1 = fs w"
    by (simp_all add: exists_def encodable_def)
  then have "\<exists>w2. convert_all_images_in_folder folder_path w1 = (Inr (), w2) \<and> fs w2 = fs w1"
    by (simp add: convert_all_images_in_folder_def print_ok)
  with Inl show ?thesis
    by simp
next
  case (Inr children)
  let ?name = "lit ''converted_images.json''"
  let ?out = "make_child (Path folder_path) ?name"
  from Inr assms obtain results wl tree' where
    loop: "convert_loop children [] w = (Inr results, wl)" and
    cr: "fs_create (fs w) (fspath ?out) (map of_nat (json_dumps results)) = Inr tree'" and
    tree': "fs w1 = tree'" and
    lines: "\<forall>l\<in>set (summary ?out (length results)). encodable w l"
    by (rule convert_success)
  from convert_run [OF Inr loop cr lines] assms convert_loop_fs [OF loop]
  have console: "console w1 = console w"
    by auto
  from Inr obtain es where
    stat: "fs_stat (fs w) (fspath (Path folder_path)) = Inr (Dir es)" and
    children: "children = map (\<lambda>e. make_child (Path folder_path) (fst e)) es"
    by (auto simp: iterdir_Path)
  from folder_walk [OF stat] obtain cur where
    cur: "walk (fs w) [] (path_components folder_path) = Inr cur"
      "fs_lookup (fs w) cur = Inr (Dir es)" and
    res: "resolve (fs w) (fspath (Path folder_path)) = Inr cur"
    by blast
  let ?t = "cur @ [?name]"
  have adm: "admissible (fspath ?out)"
    using cr by (rule fs_create_admissible)
  from cr have wr: "fs_write (fs w) ?t (map of_nat (json_dumps results)) = Inr tree'"
    by (simp add: fs_create_output [OF cur adm] split: sum.splits)
  let ?es' = "AList.update ?name (File (map of_nat (json_dumps results))) es"
  let ?children' = "map (\<lambda>e. make_child (Path folder_path) (fst e)) ?es'"
  have lookup': "fs_lookup tree' cur = Inr (Dir ?es')"
    using cur(2) wr by (rule fs_write_listing)
  have "fs_stat tree' (fspath (Path folder_path)) = Inr (Dir ?es')"
    using resolve_stable [OF wr res] lookup' by (rule fs_stat_dir)
  then have listing': "iterdir (Path folder_path) w1 = Inr ?children'"
    using tree' by (simp add: iterdir_Path)
  have same_read: "fs_read (fs w1) (fspath c) = fs_read (fs w) (fspath c)"
    if c: "c \<in> set children" "lower (path_suffix c) \<in> set extensions" for c
  proof -
    from convert_loop_reads_ok [OF loop c] obtain b where
      b: "fs_read (fs w) (fspath c) = Inr b"
      by blast
    from c(1) children obtain name where name: "c = make_child (Path folder_path) name"
      by auto
    with c(2) have "lower (suffix_of_name name) \<in> set extensions"
      by simp
    then have "resolve (fs w) (fspath c) \<noteq> Inr ?t"
      unfolding name using cur(1) by (rule child_not_output)
    from fs_read_other [OF b wr this] b tree' show ?thesis
      by simp
  qed
  have "convert_loop ?children' [] w1 = convert_loop children [] w1"
    by (simp only: children_after_write children [symmetric] split: if_splits)
       (simp add: convert_loop_snoc_skip output_not_supported)
  moreover have "fst (convert_loop children [] w1) = fst (convert_loop children [] w)"
    using console by (intro convert_loop_cong) (simp_all add: same_read)
  ultimately have same_results:
    "fst (convert_loop ?children' [] w1) = fst (convert_loop children [] w)"
    by simp
  then obtain wl' where loop': "convert_loop ?children' [] w1 = (Inr results, wl')"
    using loop by (cases "convert_loop ?children' [] w1") simp
  have "fs_create tree' (fspath ?out) (map of_nat (json_dumps results)) = Inr tree'"
    using fs_write_again [OF wr]
    by (simp add: fs_create_output [OF walk_stable [OF wr cur(1)] lookup' adm])
  then have cr': "fs_create (fs w1) (fspath ?out) (map of_nat (json_dumps results)) = Inr tree'"
    using tree' by simp
  have lines': "\<forall>l\<in>set (summary ?out (length results)). encodable w1 l"
    using lines encodable_console [OF console] by simp
  from convert_run [OF listing' loop' cr' lines'] tree'
  have "\<exists>w2. convert_all_images_in_folder folder_path w1 = (Inr (), w2) \<and> fs w2 = fs w1"
    by simp
  with same_results Inr listing' show ?thesis
    by simp
qed

theorem second_run_is_identical_witness:
  "fst (convert_all_images_in_folder (lit ''glyphs'') example_world) = Inr ()
   \<and> (\<exists>w2. convert_all_images_in_folder (lit ''glyphs'')
              (snd (convert_all_images_in_folder (lit ''glyphs'') example_world)) = (Inr (), w2)
          \<and> fs w2 = fs (snd (convert_all_images_in_folder (lit ''glyphs'') example_world)))"
proof -
  have ok: "fst (convert_all_images_in_folder (lit ''glyphs'') example_world) = Inr ()"
    by (simp add: eval_defs)
  then have run: "convert_all_images_in_folder (lit ''glyphs'') example_world
      = (Inr (), snd (convert_all_images_in_folder (lit ''glyphs'') example_world))"
    by (simp add: prod_eq_iff)
  from second_run_is_identical [OF run] ok show ?thesis
    by simp
qed

section \<open>A folder without images\<close>

text \<open>
  Claim C7 as stated fails: the folder \<open>out\<close> exists and has no entry with a supported
  suffix, but its one entry is a directory named \<open>converted_images.json\<close>, so opening the
  output file raises \<open>IsADirectoryError\<close>; nothing is written and no summary is printed.
\<close>

theorem folder_without_images_counterexample:
  "iterdir (Path (lit ''out'')) example_world
     = Inr [make_child (Path (lit ''out'')) (lit ''converted_images.json'')]
   \<and> lower (path_suffix (make_child (Path (lit ''out'')) (lit ''converted_images.json'')))
       \<notin> set extensions
   \<and> convert_all_images_in_folder (lit ''out'') example_world
       = (Inl (IsADirectoryError (lit ''out/converted_images.json'')), example_world)"
  by (simp add: eval_defs)

text \<open>
  Claim C7, amended. For every existing folder that has no entry with a supported suffix and
  in which \<open>converted_images.json\<close> is not a directory, \<open>convert_all_images_in_folder\<close>
  returns normally, the output file holds \<open>{}\<close>, and the three lines printed start with the
  summary \<open>Converted 0 images\<close>. The environment must allow the file to be opened and the
  summary to be printed: the output path is within the length the system takes, and the
  console can encode the check mark and the output path.
\<close>

theorem folder_without_images:
  assumes "iterdir (Path folder_path) w = Inr children"
    and "\<forall>c\<in>set children. lower (path_suffix c) \<notin> set extensions"
    and "\<not> isdir (fspath (joinpath (Path folder_path) (lit ''converted_images.json''))) w"
    and "fsencode_len (fspath (joinpath (Path folder_path) (lit ''converted_images.json'')))
           < PATH_MAX"
    and "encodable w check_mark"
    and "encodable w (fspath (joinpath (Path folder_path) (lit ''converted_images.json'')))"
  shows "\<exists>w'. convert_all_images_in_folder folder_path w = (Inr (), w')
           \<and> fs_read (fs w') (fspath (joinpath (Path folder_path) (lit ''converted_images.json'')))
               = Inr (map of_nat (lit ''{}''))
           \<and> stdout w' = stdout w
               @ [[10] @ check_mark @ lit '' Converted 0 images'',
                  check_mark @ lit '' Results saved to: ''
                    @ fspath (joinpath (Path folder_path) (lit ''converted_images.json'')),
                  [10] @ lit ''You can now copy the data URIs from the JSON file!'']"
proof -
  let ?name = "lit ''converted_images.json''"
  let ?out = "make_child (Path folder_path) ?name"
  from assms(1) obtain es where
    stat: "fs_stat (fs w) (fspath (Path folder_path)) = Inr (Dir es)"
    by (auto simp: iterdir_Path)
  from folder_walk [OF stat] obtain cur where
    cur: "walk (fs w) [] (path_components folder_path) = Inr cur"
      "fs_lookup (fs w) cur = Inr (Dir es)" and
    res: "resolve (fs w) (fspath (Path folder_path)) = Inr cur"
    by blast
  have "admissible (fspath (Path folder_path))"
    using resolve_Inr [OF res] by simp
  then have adm: "admissible (fspath ?out)"
    using assms(4) by (intro admissible_output) simp_all
  have "\<forall>ds. map_of es ?name \<noteq> Some (Dir ds)"
    using assms(3) by (auto simp: isdir_def fs_stat_output [OF cur adm])
  from fs_write_succeeds [OF cur(2) this] obtain n where
    "fs_write (fs w) (cur @ [?name]) (map of_nat (json_dumps [])) = Inr n"
    by blast
  then have cr: "fs_create (fs w) (fspath ?out) (map of_nat (json_dumps [])) = Inr n"
    by (simp add: fs_create_output [OF cur adm])
  have loop: "convert_loop children [] w = (Inr [], w)"
    using assms(2) by (rule convert_loop_none)
  have literal: "encodable w ([10] @ lit ''You can now copy the data URIs from the JSON file!'')"
    "encodable w [10]" "encodable w (lit '' Converted 0 images'')"
    "encodable w (lit '' Results saved to: '')"
    by (simp_all add: encodable_def lit_def)
  have lines: "\<forall>l\<in>set (summary ?out (length ([] :: (str \<times> str) list))). encodable w l"
    using assms(5,6) literal by (simp add: summary_none)
  have "json_dumps [] = lit ''{}''"
    by (simp add: json_dumps_def)
  with convert_run [OF assms(1) loop cr lines] fs_read_written [OF cur cr] show ?thesis
    by (simp add: summary_none)
qed

theorem folder_without_images_witness:
  "iterdir (Path (lit ''examples'')) example_world = Inr []
   \<and> \<not> isdir (lit ''examples/converted_images.json'') example_world
   \<and> (\<exists>w'. convert_all_images_in_folder (lit ''examples'') example_world = (Inr (), w')
          \<and> fs_read (fs w') (lit ''examples/converted_images.json'') = Inr (map of_nat (lit ''{}''))
          \<and> stdout w' =
               [[10] @ check_mark @ lit '' Converted 0 images'',
                check_mark @ lit '' Results saved to: examples/converted_images.json'',
                [10] @ lit ''You can now copy the data URIs from the JSON file!''])"
proof -
  have out: "fspath (joinpath (Path (lit ''examples'')) (lit ''converted_images.json''))
      = lit ''examples/converted_images.json''"
    by (simp add: eval_defs)
  have listing: "iterdir (Path (lit ''examples'')) example_world = Inr []"
    by (simp add: eval_defs)
  have none: "\<forall>c\<in>set []. lower (path_suffix c) \<notin> set extensions"
    by simp
  have free: "\<not> isdir (lit ''examples/converted_images.json'') example_world"
    by (simp add: isdir_def eval_defs)
  have short: "fsencode_len (lit ''examples/converted_images.json'') < PATH_MAX"
    by (simp add: eval_defs)
  have mark: "encodable example_world check_mark"
    by (simp add: eval_defs)
  have path: "encodable example_world (lit ''examples/converted_images.json'')"
    by (simp add: eval_defs)
  from folder_without_images [OF listing none free [folded out] short [folded out] mark
      path [folded out]] listing free
  show ?thesis
    unfolding out by (simp add: example_world_def lit_def)
qed


section \<open>What is stored for one image\<close>

text \<open>
  Claim C10. For a file of zero bytes \<open>image_to_data_uri\<close> returns, without error, the
  string \<open>data:<mime>;base64,\<close> with nothing after the comma. And when the batch converter
  returns normally on a folder that lists such a file with a supported suffix, the
  dictionary it has written maps the file's name to that string.
\<close>

theorem zero_byte_file:
  "(fs_read (fs w) image_path = Inr [] \<longrightarrow>
      fst (image_to_data_uri image_path w)
        = Inr (lit ''data:'' @ spec_mime (lower (drop 1 (snd (splitext image_path))))
               @ lit '';base64,''))
   \<and> (iterdir (Path folder_path) w = Inr children
        \<and> image_file \<in> set children
        \<and> lower (path_suffix image_file) \<in> set extensions
        \<and> fs_read (fs w) (fspath image_file) = Inr []
        \<and> convert_all_images_in_folder folder_path w = (Inr (), w') \<longrightarrow>
      (\<exists>results.
         fs_read (fs w') (fspath (joinpath (Path folder_path) (lit ''converted_images.json'')))
           = Inr (map of_nat (json_dumps results))
       \<and> map_of results (path_name image_file)
           = Some (lit ''data:''
                   @ spec_mime (lower (drop 1 (snd (splitext (fspath image_file)))))
                   @ lit '';base64,'')))"
proof (intro conjI impI)
  assume "fs_read (fs w) image_path = Inr []"
  then show "fst (image_to_data_uri image_path w)
        = Inr (lit ''data:'' @ spec_mime (lower (drop 1 (snd (splitext image_path))))
               @ lit '';base64,'')"
    by (simp add: image_to_data_uri_eq data_uri_of_spec)
next
  assume run: "iterdir (Path folder_path) w = Inr children
        \<and> image_file \<in> set children
        \<and> lower (path_suffix image_file) \<in> set extensions
        \<and> fs_read (fs w) (fspath image_file) = Inr []
        \<and> convert_all_images_in_folder folder_path w = (Inr (), w')"
  then have listing: "iterdir (Path folder_path) w = Inr children"
    and ok: "convert_all_images_in_folder folder_path w = (Inr (), w')"
    by simp_all
  from listing ok obtain results w1 tree' where
    loop: "convert_loop children [] w = (Inr results, w1)" and
    cr: "fs_create (fs w) (fspath (make_child (Path folder_path) (lit ''converted_images.json'')))
           (map of_nat (json_dumps results)) = Inr tree'" and
    tree': "fs w' = tree'" and
    "\<forall>l\<in>set (summary (make_child (Path folder_path) (lit ''converted_images.json''))
                (length results)). encodable w l"
    by (rule convert_success)
  from listing obtain es where "fs_stat (fs w) (fspath (Path folder_path)) = Inr (Dir es)"
    by (auto simp: iterdir_Path)
  from folder_walk [OF this] obtain cur where
    cur: "walk (fs w) [] (path_components folder_path) = Inr cur"
      "fs_lookup (fs w) cur = Inr (Dir es)"
    by blast
  from listing have children: "\<forall>c\<in>set children. \<exists>name. c = make_child (Path folder_path) name"
    by (auto simp: iterdir_Path)
  have uniq: "\<forall>d\<in>set children. path_name d = path_name image_file \<longrightarrow> d = image_file"
  proof (intro ballI impI)
    fix d
    assume d: "d \<in> set children" "path_name d = path_name image_file"
    from d(1) children obtain x where x: "d = make_child (Path folder_path) x"
      by blast
    from run children obtain y where y: "image_file = make_child (Path folder_path) y"
      by blast
    from d(2) show "d = image_file"
      by (simp add: x y)
  qed
  have "map_of results (path_name image_file) = Some (data_uri_of (fspath image_file) [])"
    using run by (intro convert_loop_value [OF loop uniq]) simp_all
  moreover have "fs_read (fs w') (fspath (joinpath (Path folder_path) (lit ''converted_images.json'')))
          = Inr (map of_nat (json_dumps results))"
    using fs_read_written [OF cur cr] tree' by simp
  ultimately show "\<exists>results.
         fs_read (fs w') (fspath (joinpath (Path folder_path) (lit ''converted_images.json'')))
           = Inr (map of_nat (json_dumps results))
       \<and> map_of results (path_name image_file)
           = Some (lit ''data:''
                   @ spec_mime (lower (drop 1 (snd (splitext (fspath image_file)))))
                   @ lit '';base64,'')"
    by (auto simp: data_uri_of_spec)
qed

theorem zero_byte_file_witness:
  "fs_read (fs example_world) (lit ''icons/empty.gif'') = Inr []
   \<and> fst (image_to_data_uri (lit ''icons/empty.gif'') example_world)
       = Inr (lit ''data:image/gif;base64,'')
   \<and> iterdir (Path (lit ''icons'')) example_world
       = Inr [make_child (Path (lit ''icons'')) (lit ''empty.gif'')]
   \<and> lower (path_suffix (make_child (Path (lit ''icons'')) (lit ''empty.gif''))) \<in> set extensions
   \<and> fst (convert_all_images_in_folder (lit ''icons'') example_world) = Inr ()
   \<and> (\<exists>results.
         fs_read (fs (snd (convert_all_images_in_folder (lit ''icons'') example_world)))
           (lit ''icons/converted_images.json'') = Inr (map of_nat (json_dumps results))
       \<and> map_of results (lit ''empty.gif'') = Some (lit ''data:image/gif;base64,''))"
proof -
  let ?c = "make_child (Path (lit ''icons'')) (lit ''empty.gif'')"
  have empty: "fs_read (fs example_world) (lit ''icons/empty.gif'') = Inr []"
    by (simp add: eval_defs)
  have path: "fspath ?c = lit ''icons/empty.gif''"
    by (simp add: eval_defs)
  have out: "fspath (joinpath (Path (lit ''icons'')) (lit ''converted_images.json''))
      = lit ''icons/converted_images.json''"
    by (simp add: eval_defs)
  have uri: "lit ''data:'' @ spec_mime (lower (drop 1 (snd (splitext (lit ''icons/empty.gif'')))))
               @ lit '';base64,'' = lit ''data:image/gif;base64,''"
    by (simp add: spec_mime_def eval_defs)
  have listing: "iterdir (Path (lit ''icons'')) example_world = Inr [?c]"
    by (simp add: eval_defs)
  have supported: "lower (path_suffix ?c) \<in> set extensions"
    by (simp add: eval_defs)
  have ok: "fst (convert_all_images_in_folder (lit ''icons'') example_world) = Inr ()"
    by (simp add: eval_defs)
  then have run: "convert_all_images_in_folder (lit ''icons'') example_world
      = (Inr (), snd (convert_all_images_in_folder (lit ''icons'') example_world))"
    by (simp add: prod_eq_iff)
  have member: "?c \<in> set [?c]"
    by simp
  from zero_byte_file [of example_world "lit ''icons/empty.gif''" "lit ''icons''" "[?c]" ?c
      "snd (convert_all_images_in_folder (lit ''icons'') example_world)"]
    empty listing supported ok run member
  show ?thesis
    unfolding path out uri by simp
qed

section \<open>The fixed-folder variant and the long JPEG extension\<close>

text \<open>
  Claim C1 fails on a file named with the long JPEG extension. In the example world the
  fixed-folder variant stores \<open>data:image/png;base64,/9j/\<close> for \<open>primary/photo.jpeg\<close>,
  while \<open>image_to_data_uri\<close> returns \<open>data:image/jpeg;base64,/9j/\<close> for the same file:
  the variant accepts the suffix \<open>.jpeg\<close> and then tests for \<open>.jpg\<close> only.
\<close>

theorem fixed_folder_mislabels_jpeg:
  "fs_read (fs (snd (fixed_folder_script example_world))) (lit ''examples/converted_images.json'')
     = Inr (map of_nat (json_dumps [(lit ''photo.jpeg'', lit ''data:image/png;base64,/9j/'')]))
   \<and> fst (image_to_data_uri (lit ''primary/photo.jpeg'') example_world)
       = Inr (lit ''data:image/jpeg;base64,/9j/'')"
  by (simp add: eval_defs)

end
